theory Spec2Isabelle
  imports Main "HOL-Library.Word"
begin

section \<open>The AD2CP frame scanner of \<open>src/ldc_ad2cp_in_file.cpp\<close>\<close>

text \<open>
  The theory embeds the two C++ functions of the file: \<open>cs\<close> (the 16-bit checksum) and
  \<open>do_ldc_ad2cp_in_file\<close> (the scan that locates header and data of every frame).

  Conventions of the embedding.
  \<^item> The opened file is the list of its bytes; \<open>getc\<close> and \<open>fread\<close> consume the list
    from the front, and a short read is a shorter list than was asked for.
  \<^item> \<open>unsigned char\<close>, \<open>unsigned short\<close> and \<open>unsigned int\<close> are words of 8, 16 and 32
    bits; \<open>int\<close> is 32 bits wide. The cursor \<open>cindex\<close> is an \<open>unsigned int\<close> and wraps.
  \<^item> \<open>Rf_error\<close> never returns: it is the result \<open>Inl (Rf_error m)\<close>, where \<open>m\<close> names
    the call. Two places where the C++ has no defined meaning are results of their own,
    \<open>Inl (Undefined u)\<close>: the overflow of the \<open>int\<close> product that decodes a four-byte
    data size, and the read \<open>data[i+1]\<close> of \<open>cs\<close> behind the end of the buffer.
  \<^item> \<open>index_buf\<close>, \<open>length_buf\<close> and \<open>id_buf\<close> are arrays indexed by \<open>chunk\<close>; they are
    functions from indices to cells, all zero at first as \<open>Calloc\<close> leaves them. Their
    capacity \<open>nchunk\<close> and its growth by \<open>Realloc\<close> cannot be observed (cell \<open>chunk\<close>
    always exists when it is written) and are left out, as are the \<open>Rprintf\<close> messages,
    the \<open>DEBUG\<close> argument that only selects them, and failures of \<open>fopen\<close> and of
    memory allocation.
\<close>

type_synonym byte = "8 word"

subsection \<open>Constants\<close>

definition SYNC :: byte where
  "SYNC = 0xA5"

definition HEADER_SIZE :: nat where
  "HEADER_SIZE = 10"

definition FAMILY :: byte where
  "FAMILY = 0x10"

definition ID_ALLOWED :: "int list" where
  "ID_ALLOWED = [21, 22, 23, 24, 26, 27, 28, 29, 30, 31, 160]"

subsection \<open>Errors\<close>

text \<open>One constructor for each call of \<open>Rf_error\<close>, in the order of the source.\<close>

datatype rf_error =
    Negative_from
  | Negative_to
  | Negative_by
  | No_sync_byte
  | Cannot_read_sync
  | Bad_sync
  | Cannot_read_header_size
  | Impossible_header_size
  | Cannot_read_id
  | Cannot_read_family
  | Cannot_read_bytes2
  | Cannot_read_bytes4
  | Header_size_not_10_or_12
  | Cannot_read_data_checksum
  | Cannot_read_header_checksum

datatype undefined_behaviour =
    Int_overflow
  | Read_past_dbuf

datatype error =
    Rf_error rf_error
  | Undefined undefined_behaviour

subsection \<open>The checksum \<open>cs\<close>\<close>

text \<open>
  \<^verbatim>\<open>for (int i = 0; i < size; i += 2)
       checksum += (unsigned short)data[i] + 256*(unsigned short)data[i+1];\<close>
  The sum is computed in \<open>int\<close> and stored into an \<open>unsigned short\<close>, which is addition
  of 16-bit words. \<open>data\<close> is the buffer with its allocated length: for an odd \<open>size\<close> the
  last round reads \<open>data[size]\<close>, a byte that is not part of the payload, and behind the
  end of the buffer when the buffer is exactly \<open>size\<close> long.
\<close>

function cs_loop :: "byte list \<Rightarrow> nat \<Rightarrow> nat \<Rightarrow> 16 word \<Rightarrow> error + 16 word" where
  "cs_loop data sz i checksum =
     (if i < sz then
        if i + 1 < length data
        then cs_loop data sz (i + 2)
               (checksum + (ucast (data ! i) + 256 * ucast (data ! (i + 1))))
        else Inl (Undefined Read_past_dbuf)
      else Inr checksum)"
  by pat_completeness auto
termination
  by (relation "measure (\<lambda>(data, sz, i, checksum). sz - i)") auto

declare cs_loop.simps [simp del]

definition cs :: "byte list \<Rightarrow> 16 word \<Rightarrow> error + 16 word" where
  "cs data sz = cs_loop data (unat sz) 0 0xB58C"

subsection \<open>The sync locator\<close>

text \<open>
  The first loop of \<open>do_ldc_ad2cp_in_file\<close>: \<open>getc\<close> until a byte equals \<open>SYNC\<close>, which
  \<open>fseek(fp, -1, SEEK_CUR)\<close> puts back; every other byte increments \<open>cindex\<close>.
\<close>

fun locate_sync :: "byte list \<Rightarrow> 32 word \<Rightarrow> error + byte list \<times> 32 word" where
  "locate_sync [] cindex = Inl (Rf_error No_sync_byte)"
| "locate_sync (c # fp) cindex =
     (if c = SYNC then Inr (c # fp, cindex) else locate_sync fp (cindex + 1))"

subsection \<open>The header\<close>

text \<open>
  \<open>data_size\<close> is an \<open>unsigned long\<close> that receives the value of an \<open>int\<close> expression.
  For a two-byte field the expression is at most 65535. For a four-byte field
  \<open>256 * (bytes4[1] + 256 * (bytes4[2] + 256 * bytes4[3]))\<close> exceeds \<open>INT_MAX\<close> exactly when
  \<open>bytes4[3]\<close> is 128 or more; below that the product is a multiple of 256 below
  \<open>2^31\<close>, adding \<open>bytes4[0]\<close> cannot overflow, and the value is less than \<open>2^31\<close>. So on every
  defined path \<open>data_size\<close> is a natural number below \<open>2^31\<close>, whatever the width of
  \<open>unsigned long\<close>, and the field is a \<open>nat\<close>; the conversions to \<open>unsigned int\<close> and
  \<open>unsigned short\<close> where it is used are written out there.
\<close>

record header =
  sync :: byte
  header_size :: byte
  id_h :: byte
  family :: byte
  data_size :: nat
  data_checksum :: "16 word"
  header_checksum :: "16 word"

definition INT_MAX :: int where
  "INT_MAX = 2147483647"

definition bytes2_value :: "byte \<Rightarrow> byte \<Rightarrow> int" where
  "bytes2_value b0 b1 = uint b0 + 256 * uint b1"

definition bytes4_value :: "byte \<Rightarrow> byte \<Rightarrow> byte \<Rightarrow> byte \<Rightarrow> error + int" where
  "bytes4_value b0 b1 b2 b3 =
     (let inner = uint b1 + 256 * (uint b2 + 256 * uint b3) in
      if INT_MAX < 256 * inner then Inl (Undefined Int_overflow)
      else Inr (uint b0 + 256 * inner))"

text \<open>The two-byte checksum fields: \<open>bytes2[0] + 256 * bytes2[1]\<close> stored in 16 bits.\<close>

definition bytes2_short :: "byte \<Rightarrow> byte \<Rightarrow> 16 word" where
  "bytes2_short b0 b1 = word_of_int (bytes2_value b0 b1)"

text \<open>
  The tail of the header after \<open>data_size\<close>: data checksum and header checksum, two
  bytes each. The header checksum is stored and never compared.
\<close>

fun read_checksums ::
  "byte \<Rightarrow> byte \<Rightarrow> byte \<Rightarrow> byte \<Rightarrow> nat \<Rightarrow> byte list \<Rightarrow> error + header \<times> byte list" where
  "read_checksums s hs i f dsz (c0 # c1 # h0 # h1 # fp) =
     Inr (\<lparr>sync = s, header_size = hs, id_h = i, family = f, data_size = dsz,
           data_checksum = bytes2_short c0 c1, header_checksum = bytes2_short h0 h1\<rparr>, fp)"
| "read_checksums s hs i f dsz (c0 # c1 # fp) = Inl (Rf_error Cannot_read_header_checksum)"
| "read_checksums s hs i f dsz fp = Inl (Rf_error Cannot_read_data_checksum)"

text \<open>The \<open>data_size\<close> field, two or four bytes wide as \<open>header_size\<close> is 10 or 12.\<close>

fun read_data_size ::
  "byte \<Rightarrow> byte \<Rightarrow> byte \<Rightarrow> byte \<Rightarrow> byte list \<Rightarrow> error + header \<times> byte list" where
  "read_data_size s hs i f fp =
     (if hs = 10 then
        (case fp of
           b0 # b1 # fp' \<Rightarrow> read_checksums s hs i f (nat (bytes2_value b0 b1)) fp'
         | _ \<Rightarrow> Inl (Rf_error Cannot_read_bytes2))
      else if hs = 12 then
        (case fp of
           b0 # b1 # b2 # b3 # fp' \<Rightarrow>
             (case bytes4_value b0 b1 b2 b3 of
                Inl e \<Rightarrow> Inl e
              | Inr v \<Rightarrow> read_checksums s hs i f (nat v) fp')
         | _ \<Rightarrow> Inl (Rf_error Cannot_read_bytes4))
      else Inl (Rf_error Header_size_not_10_or_12))"

text \<open>
  The leading fields, one \<open>fread\<close> of one byte each, in the order of the source: the
  sync byte is read and compared, the header size is read and compared with 2, then id
  and family are read.
\<close>

fun read_header :: "byte list \<Rightarrow> error + header \<times> byte list" where
  "read_header [] = Inl (Rf_error Cannot_read_sync)"
| "read_header (s # fp) =
     (if s = SYNC then
        (case fp of
           [] \<Rightarrow> Inl (Rf_error Cannot_read_header_size)
         | hs # fp1 \<Rightarrow>
             if hs < 2 then Inl (Rf_error Impossible_header_size)
             else
               (case fp1 of
                  [] \<Rightarrow> Inl (Rf_error Cannot_read_id)
                | i # fp2 \<Rightarrow>
                    (case fp2 of
                       [] \<Rightarrow> Inl (Rf_error Cannot_read_family)
                     | f # fp3 \<Rightarrow> read_data_size s hs i f fp3)))
      else Inl (Rf_error Bad_sync))"

subsection \<open>The scan loop\<close>

text \<open>
  The state of the \<open>while\<close> loop: the unread rest of the file and the local variables
  that the loop changes. \<open>broken_end\<close> is an \<open>int\<close> that only takes the values 0 and 1.
\<close>

record scan_state =
  fp :: "byte list"
  cindex :: "32 word"
  chunk :: nat
  index_buf :: "nat \<Rightarrow> 32 word"
  length_buf :: "nat \<Rightarrow> 32 word"
  id_buf :: "nat \<Rightarrow> 32 word"
  dbuf :: "byte list"
  broken_end :: bool

text \<open>
  The payload buffer after \<open>Realloc\<close> (when \<open>data_size\<close> exceeds its length) and
  \<open>fread\<close>: the bytes read, then what the buffer held behind them. The cells that
  \<open>Realloc\<close> adds hold no defined value; they are written as zeros here and are never
  read, since \<open>cs\<close> is called only after a full read, which overwrites all of them.
\<close>

definition load_dbuf :: "byte list \<Rightarrow> nat \<Rightarrow> byte list \<Rightarrow> byte list" where
  "load_dbuf buf n got =
     got @ drop (length got)
             (if length buf < n then buf @ replicate (n - length buf) 0 else buf)"

text \<open>The search of \<open>header.id\<close> in \<open>ID_ALLOWED\<close>; its result \<open>found\<close> is not used.\<close>

definition found :: "byte \<Rightarrow> bool" where
  "found i = (uint i \<in> set ID_ALLOWED)"

text \<open>One pass through the body of the loop ends in \<open>break\<close> or at the end of the body.\<close>

datatype step = Break scan_state | Continue scan_state

definition scan_body :: "scan_state \<Rightarrow> error + step" where
  "scan_body st =
     (case read_header (fp st) of
        Inl e \<Rightarrow> Inl e
      | Inr (h, fp1) \<Rightarrow>
          let cindex1 = cindex st + ucast (header_size h);
              st1 = st\<lparr>cindex := cindex1,
                       index_buf := (index_buf st)(chunk st := cindex1),
                       length_buf := (length_buf st)(chunk st := of_nat (data_size h)),
                       id_buf := (id_buf st)(chunk st := ucast (id_h h))\<rparr>;
              got = take (data_size h) fp1;
              st2 = st1\<lparr>fp := drop (data_size h) fp1,
                        dbuf := load_dbuf (dbuf st) (data_size h) got\<rparr>
          in if length got = data_size h then
               (case cs (dbuf st2) (of_nat (data_size h)) of
                  Inl e \<Rightarrow> Inl e
                | Inr dbufcs \<Rightarrow>
                    Inr (Continue
                      (st2\<lparr>broken_end :=
                              (if dbufcs = data_checksum h then broken_end st2 else True),
                            cindex := cindex1 + of_nat (data_size h),
                            chunk := chunk st + 1\<rparr>)))
             else Inr (Break st2))"

lemma scan_body_Continue_chunk:
  "scan_body st = Inr (Continue st') \<Longrightarrow> chunk st' = chunk st + 1"
  by (auto simp: scan_body_def Let_def split: sum.splits prod.splits if_splits)

function scan_loop :: "nat \<Rightarrow> scan_state \<Rightarrow> error + scan_state" where
  "scan_loop to_value st =
     (if chunk st < to_value then
        (case scan_body st of
           Inl e \<Rightarrow> Inl e
         | Inr (Break st') \<Rightarrow> Inr st'
         | Inr (Continue st') \<Rightarrow> scan_loop to_value st')
      else Inr st)"
  by pat_completeness auto
termination
  by (relation "measure (\<lambda>(to_value, st). to_value - chunk st)")
     (auto dest: scan_body_Continue_chunk)

declare scan_loop.simps [simp del]

subsection \<open>The exported function\<close>

text \<open>
  The value returned to R: three integer vectors of length \<open>chunk\<close>, copied from the
  buffers (an \<open>unsigned int\<close> stored into an \<open>int\<close> keeps its bits, so the integer is
  \<open>sint\<close> of the cell), and the flag.
\<close>

record result =
  index :: "int list"
  length_r :: "int list"
  id_r :: "int list"
  brokenEnd :: bool

definition make_result :: "scan_state \<Rightarrow> result" where
  "make_result st =
     \<lparr>index = map (\<lambda>i. sint (index_buf st i)) [0..<chunk st],
      length_r = map (\<lambda>i. sint (length_buf st i)) [0..<chunk st],
      id_r = map (\<lambda>i. sint (id_buf st i)) [0..<chunk st],
      brokenEnd = broken_end st\<rparr>"

definition initial_state :: "byte list \<Rightarrow> 32 word \<Rightarrow> scan_state" where
  "initial_state fp0 cindex0 =
     \<lparr>fp = fp0, cindex = cindex0, chunk = 0,
      index_buf = (\<lambda>i. 0), length_buf = (\<lambda>i. 0), id_buf = (\<lambda>i. 0),
      dbuf = replicate 10000 0, broken_end = False\<rparr>"

text \<open>
  \<open>from0\<close>, \<open>to0\<close> and \<open>by0\<close> are \<open>from[0]\<close>, \<open>to[0]\<close> and \<open>by[0]\<close>, R integers of 32
  bits that \<open>sint\<close> reads as signed; \<open>to_value\<close> is \<open>to[0]\<close>, not negative there, as
  an \<open>unsigned int\<close>. \<open>chunk\<close> counts up to it, cannot wrap, and is a \<open>nat\<close>.
\<close>

definition do_ldc_ad2cp_in_file ::
  "byte list \<Rightarrow> 32 word \<Rightarrow> 32 word \<Rightarrow> 32 word \<Rightarrow> error + result" where
  "do_ldc_ad2cp_in_file stream from0 to0 by0 =
     (if sint from0 < 0 then Inl (Rf_error Negative_from)
      else if sint to0 < 0 then Inl (Rf_error Negative_to)
      else if sint by0 < 0 then Inl (Rf_error Negative_by)
      else
        (case locate_sync stream 0 of
           Inl e \<Rightarrow> Inl e
         | Inr (fp0, cindex0) \<Rightarrow>
             (case scan_loop (nat (sint to0)) (initial_state fp0 cindex0) of
                Inl e \<Rightarrow> Inl e
              | Inr st \<Rightarrow> Inr (make_result st))))"

subsection \<open>Notions used to state the properties\<close>

text \<open>
  \<open>passes to_value k st\<close> is the state of the loop after \<open>k\<close> further passes through
  its body that all ran to the end of the body (no error, no \<open>break\<close>), if the loop
  started in \<open>st\<close> makes them.
\<close>

fun passes :: "nat \<Rightarrow> nat \<Rightarrow> scan_state \<Rightarrow> scan_state option" where
  "passes to_value 0 st = Some st"
| "passes to_value (Suc k) st =
     (if chunk st < to_value then
        (case scan_body st of
           Inr (Continue st') \<Rightarrow> passes to_value k st'
         | _ \<Rightarrow> None)
      else None)"

text \<open>
  The two faults of a header, on the bytes \<open>inp\<close> that are left in the file when a
  header is due. The byte at position 1 is the header size. The header is short when
  the file ends before the last of the fields that the code reads: before the fourth
  byte, or before the tenth or twelfth byte of a header of that size.
\<close>

definition bad_header_size :: "byte list \<Rightarrow> bool" where
  "bad_header_size inp = (2 \<le> length inp \<and> inp ! 1 \<noteq> 10 \<and> inp ! 1 \<noteq> 12)"

definition short_header :: "byte list \<Rightarrow> bool" where
  "short_header inp =
     (length inp < 4
      \<or> (inp ! 1 = 10 \<and> length inp < 10)
      \<or> (inp ! 1 = 12 \<and> length inp < 12))"

text \<open>
  The checksum in the words of the specification: 0xB58C plus the sum of
  \<open>byte[i] + 256 * byte[i+1]\<close> over \<open>i = 0, 2, 4, \<dots>\<close>, in arithmetic modulo \<open>2^16\<close>. It
  is meant for payloads of even length (a last single byte adds nothing).
\<close>

fun pair_sum :: "byte list \<Rightarrow> 16 word" where
  "pair_sum (a # b # p) = (ucast a + 256 * ucast b) + pair_sum p"
| "pair_sum p = 0"

definition claimed_checksum :: "byte list \<Rightarrow> 16 word" where
  "claimed_checksum p = 0xB58C + pair_sum p"

text \<open>
  Two invariants of the loop, for a scan of the stream \<open>s\<close>. \<open>at_cursor\<close>: the unread
  bytes are a suffix of \<open>s\<close>, \<open>cindex\<close> is the number of bytes before it, and the last
  record ends there. \<open>linked\<close>: every record lies inside \<open>s\<close>, and each record but the
  last is followed by a header whose second byte, 10 or 12, is the distance from the end
  of its payload to the next payload. Both read the cells as unsigned numbers.
\<close>

definition at_cursor :: "byte list \<Rightarrow> scan_state \<Rightarrow> bool" where
  "at_cursor s st \<longleftrightarrow>
     length (fp st) \<le> length s
     \<and> fp st = drop (length s - length (fp st)) s
     \<and> unat (cindex st) = length s - length (fp st)
     \<and> (0 < chunk st \<longrightarrow>
          unat (index_buf st (chunk st - 1)) + unat (length_buf st (chunk st - 1))
            = length s - length (fp st))"

definition linked :: "byte list \<Rightarrow> scan_state \<Rightarrow> bool" where
  "linked s st \<longleftrightarrow>
     (\<forall>i<chunk st. unat (index_buf st i) + unat (length_buf st i) \<le> length s)
     \<and> (\<forall>i. Suc i < chunk st \<longrightarrow>
          unat (index_buf st i) + unat (length_buf st i) + 1 < length s
          \<and> (s ! (unat (index_buf st i) + unat (length_buf st i) + 1) = 10
             \<or> s ! (unat (index_buf st i) + unat (length_buf st i) + 1) = 12)
          \<and> unat (index_buf st (Suc i))
              = unat (index_buf st i) + unat (length_buf st i)
                + unat (s ! (unat (index_buf st i) + unat (length_buf st i) + 1)))"

text \<open>
  Two states of the loop that agree but for the cursor and the offsets stored so far,
  which are larger by \<open>d\<close> in the second.
\<close>

definition shift_rel :: "32 word \<Rightarrow> scan_state \<Rightarrow> scan_state \<Rightarrow> bool" where
  "shift_rel d a b \<longleftrightarrow>
     fp b = fp a \<and> chunk b = chunk a \<and> cindex b = cindex a + d
     \<and> dbuf b = dbuf a \<and> broken_end b = broken_end a
     \<and> (\<forall>i<chunk a. index_buf b i = index_buf a i + d
           \<and> length_buf b i = length_buf a i \<and> id_buf b i = id_buf a i)"

section \<open>Properties\<close>

text \<open>The equations that evaluate a scan of a given list of bytes.\<close>

lemmas scan_eval =
  do_ldc_ad2cp_in_file_def initial_state_def make_result_def scan_loop.simps scan_body_def
  load_dbuf_def cs_def cs_loop.simps SYNC_def bytes2_value_def bytes2_short_def
  bytes4_value_def INT_MAX_def Let_def

subsection \<open>Conversions between the integer types\<close>

lemma unat_byte_less: "unat (b :: byte) < 256"
  using unsigned_less[of b, where ?'a = nat] by simp

lemma unat_ucast_byte: "unat (ucast (b :: byte) :: 32 word) = unat b"
proof -
  have "unat b < 4294967296" using unat_byte_less[of b] by linarith
  then show ?thesis by (simp add: unsigned_ucast_eq take_bit_nat_eq_self)
qed

lemma sint_ucast_byte: "sint (ucast (b :: byte) :: 32 word) = uint b"
proof -
  have "uint b < 256" "0 \<le> uint b" using uint_bounded[of b] by simp_all
  then have "- 2147483648 \<le> uint b \<and> uint b < 2147483648" by linarith
  then show ?thesis
    by (simp add: signed_ucast_eq signed_take_bit_int_eq_self_iff)
qed

lemma sint_of_nat_32:
  "n < 2147483648 \<Longrightarrow> sint (word_of_nat n :: 32 word) = int n"
  by (simp add: signed_of_nat signed_take_bit_int_eq_self_iff)

lemma unat_of_nat_32: "n < 4294967296 \<Longrightarrow> unat (word_of_nat n :: 32 word) = n"
  by (simp add: unat_of_nat)

lemma sint_eq_unat_32: "unat (w :: 32 word) < 2147483648 \<Longrightarrow> sint w = int (unat w)"
  using sint_of_nat_32[of "unat w"] by simp

subsection \<open>What a decoded header tells\<close>

text \<open>
  A header that decodes took exactly \<open>header_size\<close> bytes from the file, 10 or 12, the
  first of them the sync byte, and its data size is below \<open>2^31\<close>.
\<close>

lemma bytes2_value_bounds: "0 \<le> bytes2_value b0 b1 \<and> bytes2_value b0 b1 < 65536"
proof -
  have "uint b0 < 256" "uint b1 < 256" "0 \<le> uint b0" "0 \<le> uint b1"
    using uint_bounded[of b0] uint_bounded[of b1] by simp_all
  then show ?thesis unfolding bytes2_value_def by arith
qed

lemma bytes4_value_bounds:
  assumes "bytes4_value b0 b1 b2 b3 = Inr v"
  shows "0 \<le> v \<and> v < 2147483648"
proof -
  have b: "uint b0 < 256" "0 \<le> uint b0" "0 \<le> uint b1" "0 \<le> uint b2" "0 \<le> uint b3"
    using uint_bounded[of b0] by simp_all
  define inner where "inner = uint b1 + 256 * (uint b2 + 256 * uint b3)"
  have i0: "0 \<le> inner" using b unfolding inner_def by simp
  from assms have le: "256 * inner \<le> 2147483647" and v: "v = uint b0 + 256 * inner"
    by (auto simp: bytes4_value_def Let_def INT_MAX_def inner_def split: if_splits)
  from le have "inner \<le> 8388607" by arith
  with v b i0 show ?thesis by arith
qed

lemma read_checksums_Inr:
  assumes "read_checksums s hs i f dsz inp = Inr (h, fp1)"
  shows "\<exists>c0 c1 h0 h1. inp = c0 # c1 # h0 # h1 # fp1 \<and>
    h = \<lparr>sync = s, header_size = hs, id_h = i, family = f, data_size = dsz,
         data_checksum = bytes2_short c0 c1, header_checksum = bytes2_short h0 h1\<rparr>"
  using assms by (cases "(s, hs, i, f, dsz, inp)" rule: read_checksums.cases) auto

lemma read_header_Inr:
  assumes "read_header inp = Inr (h, fp1)"
  shows "\<exists>hdr. inp = hdr @ fp1 \<and> length hdr = unat (header_size h) \<and> 4 \<le> length hdr
    \<and> hdr ! 0 = SYNC \<and> hdr ! 1 = header_size h \<and> hdr ! 2 = id_h h \<and> hdr ! 3 = family h
    \<and> (header_size h = 10 \<or> header_size h = 12) \<and> data_size h < 2147483648"
proof -
  from assms obtain hs i f fp3 where inp: "inp = SYNC # hs # i # f # fp3"
    and ds: "read_data_size SYNC hs i f fp3 = Inr (h, fp1)"
    by (cases inp) (auto split: if_splits list.splits)
  show ?thesis
  proof (cases "hs = 10")
    case True
    with ds obtain b0 b1 fp4 where fp3: "fp3 = b0 # b1 # fp4"
      and rc: "read_checksums SYNC hs i f (nat (bytes2_value b0 b1)) fp4 = Inr (h, fp1)"
      by (auto split: list.splits)
    from read_checksums_Inr[OF rc] obtain c0 c1 h0 h1 where
      fp4: "fp4 = c0 # c1 # h0 # h1 # fp1"
      and h: "h = \<lparr>sync = SYNC, header_size = hs, id_h = i, family = f,
                 data_size = nat (bytes2_value b0 b1),
                 data_checksum = bytes2_short c0 c1, header_checksum = bytes2_short h0 h1\<rparr>"
      by blast
    have "inp = [SYNC, hs, i, f, b0, b1, c0, c1, h0, h1] @ fp1"
      using inp fp3 fp4 by simp
    moreover have "data_size h < 2147483648"
      using h bytes2_value_bounds[of b0 b1] by (simp add: nat_less_iff)
    ultimately show ?thesis using h True
      by (intro exI[of _ "[SYNC, hs, i, f, b0, b1, c0, c1, h0, h1]"]) simp
  next
    case False
    with ds have hs: "hs = 12" by (auto split: if_splits)
    with ds obtain b0 b1 b2 b3 fp4 v where fp3: "fp3 = b0 # b1 # b2 # b3 # fp4"
      and v: "bytes4_value b0 b1 b2 b3 = Inr v"
      and rc: "read_checksums SYNC hs i f (nat v) fp4 = Inr (h, fp1)"
      by (auto split: list.splits sum.splits)
    from read_checksums_Inr[OF rc] obtain c0 c1 h0 h1 where
      fp4: "fp4 = c0 # c1 # h0 # h1 # fp1"
      and h: "h = \<lparr>sync = SYNC, header_size = hs, id_h = i, family = f,
                 data_size = nat v,
                 data_checksum = bytes2_short c0 c1, header_checksum = bytes2_short h0 h1\<rparr>"
      by blast
    have "inp = [SYNC, hs, i, f, b0, b1, b2, b3, c0, c1, h0, h1] @ fp1"
      using inp fp3 fp4 by simp
    moreover have "data_size h < 2147483648"
      using h bytes4_value_bounds[OF v] by (simp add: nat_less_iff)
    ultimately show ?thesis using h hs
      by (intro exI[of _ "[SYNC, hs, i, f, b0, b1, b2, b3, c0, c1, h0, h1]"]) simp
  qed
qed

subsection \<open>What one pass of the loop does\<close>

lemma scan_body_Inl: "read_header (fp st) = Inl e \<Longrightarrow> scan_body st = Inl e"
  by (simp add: scan_body_def)

lemma scan_body_ContinueD:
  assumes "scan_body st = Inr (Continue st')"
  shows "\<exists>h fp1 c. read_header (fp st) = Inr (h, fp1) \<and> data_size h \<le> length fp1
    \<and> cs (load_dbuf (dbuf st) (data_size h) (take (data_size h) fp1)) (of_nat (data_size h)) = Inr c
    \<and> fp st' = drop (data_size h) fp1
    \<and> cindex st' = cindex st + ucast (header_size h) + of_nat (data_size h)
    \<and> chunk st' = chunk st + 1
    \<and> index_buf st' = (index_buf st)(chunk st := cindex st + ucast (header_size h))
    \<and> length_buf st' = (length_buf st)(chunk st := of_nat (data_size h))
    \<and> id_buf st' = (id_buf st)(chunk st := ucast (id_h h))
    \<and> dbuf st' = load_dbuf (dbuf st) (data_size h) (take (data_size h) fp1)
    \<and> broken_end st' = (c \<noteq> data_checksum h \<or> broken_end st)"
  using assms
  by (auto simp: scan_body_def Let_def split: sum.splits prod.splits if_splits)

lemma scan_body_BreakD:
  assumes "scan_body st = Inr (Break st')"
  shows "\<exists>h fp1. read_header (fp st) = Inr (h, fp1) \<and> length fp1 < data_size h
    \<and> fp st' = drop (data_size h) fp1
    \<and> cindex st' = cindex st + ucast (header_size h)
    \<and> chunk st' = chunk st
    \<and> index_buf st' = (index_buf st)(chunk st := cindex st + ucast (header_size h))
    \<and> length_buf st' = (length_buf st)(chunk st := of_nat (data_size h))
    \<and> id_buf st' = (id_buf st)(chunk st := ucast (id_h h))
    \<and> broken_end st' = broken_end st"
  using assms
  by (auto simp: scan_body_def Let_def split: sum.splits prod.splits if_splits)

lemma scan_body_full:
  assumes "read_header (fp st) = Inr (h, fp1)" "data_size h \<le> length fp1"
    and "cs (load_dbuf (dbuf st) (data_size h) (take (data_size h) fp1)) (of_nat (data_size h)) = Inr c"
  shows "\<exists>st'. scan_body st = Inr (Continue st')"
  using assms by (simp add: scan_body_def Let_def)

subsection \<open>Induction over the loop\<close>

lemma scan_loop_Inr_induct [consumes 1, case_names stop break continue]:
  assumes "scan_loop to_value st = Inr s"
    and "\<And>st. \<not> chunk st < to_value \<Longrightarrow> P st st"
    and "\<And>st st'. chunk st < to_value \<Longrightarrow> scan_body st = Inr (Break st') \<Longrightarrow> P st st'"
    and "\<And>st st' s. chunk st < to_value \<Longrightarrow> scan_body st = Inr (Continue st') \<Longrightarrow>
           scan_loop to_value st' = Inr s \<Longrightarrow> P st' s \<Longrightarrow> P st s"
  shows "P st s"
  using assms
proof (induction to_value st rule: scan_loop.induct)
  case (1 to_value st)
  note stop = "1.prems"(2) and brk = "1.prems"(3) and cont = "1.prems"(4)
  show ?case
  proof (cases "chunk st < to_value")
    case False
    with "1.prems"(1) stop[of st] show ?thesis by (simp add: scan_loop.simps)
  next
    case True
    show ?thesis
    proof (cases "scan_body st")
      case (Inl e)
      with True "1.prems"(1) show ?thesis by (simp add: scan_loop.simps)
    next
      case (Inr x)
      show ?thesis
      proof (cases x)
        case (Break b)
        with True Inr "1.prems"(1) brk[of st b] show ?thesis by (simp add: scan_loop.simps)
      next
        case (Continue n)
        with True Inr "1.prems"(1) have n: "scan_loop to_value n = Inr s"
          by (simp add: scan_loop.simps)
        have b: "scan_body st = Inr (Continue n)" using Inr Continue by simp
        have "P n s"
          by (rule "1.IH"[OF True Inr Continue n stop brk cont])
        then show ?thesis by (rule cont[OF True b n])
      qed
    qed
  qed
qed

lemma scan_loop_keeps:
  assumes "scan_loop to_value st = Inr s"
  shows "chunk st \<le> chunk s \<and> (broken_end st \<longrightarrow> broken_end s)
    \<and> (\<forall>i<chunk st. index_buf s i = index_buf st i \<and> length_buf s i = length_buf st i
          \<and> id_buf s i = id_buf st i)"
  using assms
proof (induction rule: scan_loop_Inr_induct)
  case (stop st)
  show ?case by simp
next
  case (break st st')
  from scan_body_BreakD[OF break(2)] show ?case by auto
next
  case (continue st st' s)
  from scan_body_ContinueD[OF continue(2)] continue(4) show ?case by auto
qed

lemma passes_scan_loop:
  "passes to_value k st = Some st' \<Longrightarrow> scan_loop to_value st = scan_loop to_value st'"
proof (induction k arbitrary: st)
  case 0
  then show ?case by simp
next
  case (Suc k)
  from Suc.prems obtain st1 where lt: "chunk st < to_value"
    and b: "scan_body st = Inr (Continue st1)" and p: "passes to_value k st1 = Some st'"
    by (auto split: if_splits sum.splits step.splits)
  from lt b have "scan_loop to_value st = scan_loop to_value st1"
    by (simp add: scan_loop.simps)
  with Suc.IH[OF p] show ?case by simp
qed

lemma passes_chunk: "passes to_value k st = Some st' \<Longrightarrow> chunk st' = chunk st + k"
proof (induction k arbitrary: st)
  case 0
  then show ?case by simp
next
  case (Suc k)
  from Suc.prems obtain st1 where
    b: "scan_body st = Inr (Continue st1)" and p: "passes to_value k st1 = Some st'"
    by (auto split: if_splits sum.splits step.splits)
  from Suc.IH[OF p] scan_body_Continue_chunk[OF b] show ?case by simp
qed

lemma passes_Suc_end:
  "passes to_value k st = Some st1 \<Longrightarrow> chunk st1 < to_value \<Longrightarrow>
   scan_body st1 = Inr (Continue st2) \<Longrightarrow> passes to_value (Suc k) st = Some st2"
proof (induction k arbitrary: st)
  case 0
  then show ?case by simp
next
  case (Suc k)
  from Suc.prems(1) obtain sa where lt: "chunk st < to_value"
    and b: "scan_body st = Inr (Continue sa)" and p: "passes to_value k sa = Some st1"
    by (auto split: if_splits sum.splits step.splits)
  from Suc.IH[OF p Suc.prems(2,3)] lt b show ?case by simp
qed

subsection \<open>The sync locator\<close>

lemma locate_sync_no_sync:
  "SYNC \<notin> set stream \<Longrightarrow> locate_sync stream c = Inl (Rf_error No_sync_byte)"
  by (induction stream arbitrary: c) auto

lemma locate_sync_finds:
  "SYNC \<in> set stream \<Longrightarrow> \<exists>fp0 c0. locate_sync stream c = Inr (fp0, c0)"
  by (induction stream arbitrary: c) auto

lemma locate_sync_skip:
  "SYNC \<notin> set p \<Longrightarrow> locate_sync (p @ rest) c = locate_sync rest (c + of_nat (length p))"
  by (induction p arbitrary: c) (auto simp: add.assoc)

subsection \<open>The record count and the limit \<open>to\<close>\<close>

lemma scan_body_Break_chunk:
  "scan_body st = Inr (Break st') \<Longrightarrow> chunk st' = chunk st"
  by (auto simp: scan_body_def Let_def split: sum.splits prod.splits if_splits)

lemma scan_loop_chunk_le:
  assumes "scan_loop to_value st = Inr st'" "chunk st \<le> to_value"
  shows "chunk st' \<le> to_value"
  using assms
proof (induction rule: scan_loop_Inr_induct)
  case (stop st)
  then show ?case by simp
next
  case (break st st')
  with scan_body_Break_chunk[of st st'] show ?case by simp
next
  case (continue st st' s)
  with scan_body_Continue_chunk[of st st'] show ?case by simp
qed

text \<open>For a positive limit \<open>to\<close> the scan returns at most \<open>to\<close> records.\<close>

lemma at_most_to_records:
  assumes "do_ldc_ad2cp_in_file stream from0 to0 by0 = Inr r"
  shows "length (index r) \<le> nat (sint to0)"
proof -
  from assms obtain fp0 c0 st where
    st: "scan_loop (nat (sint to0)) (initial_state fp0 c0) = Inr st" and r: "r = make_result st"
    by (auto simp: do_ldc_ad2cp_in_file_def split: if_splits sum.splits prod.splits)
  have "chunk st \<le> nat (sint to0)"
    by (rule scan_loop_chunk_le[OF st]) (simp add: initial_state_def)
  with r show ?thesis by (simp add: make_result_def)
qed

text \<open>
  With \<open>to = 0\<close> the condition \<open>chunk < to_value\<close> of the loop is false at once: whatever
  the stream holds behind its first sync byte, no record is returned.
\<close>

lemma to_zero_no_records:
  assumes "SYNC \<in> set stream" "0 \<le> sint from0" "0 \<le> sint by0"
  shows "do_ldc_ad2cp_in_file stream from0 0 by0 =
    Inr \<lparr>index = [], length_r = [], id_r = [], brokenEnd = False\<rparr>"
proof -
  from locate_sync_finds[OF assms(1)] obtain fp0 c0 where "locate_sync stream 0 = Inr (fp0, c0)"
    by blast
  with assms show ?thesis
    by (simp add: do_ldc_ad2cp_in_file_def scan_loop.simps initial_state_def make_result_def)
qed

text \<open>
  Claim C1 (the limit 0 means the whole stream; a limit \<open>N > 0\<close> means at most \<open>N\<close>
  records). The comment of the function says that \<open>to = 0\<close> retrieves all the data of
  the file, and the loop carries the note "use whole file here", but the code does not
  do it. The stream below is one well-formed frame: header size 10, id 21, family 0x10,
  data size 2, data checksum \<open>0xB78D = 0xB58C + 1 + 256 * 2\<close>, payload 1, 2. Scanned with
  \<open>to = 0\<close> it yields no record at all, where the claim promises one; with \<open>to = 1\<close> it
  yields the record.
\<close>

theorem to_zero_returns_no_record:
  "do_ldc_ad2cp_in_file [0xA5, 0x0A, 0x15, 0x10, 2, 0, 0x8D, 0xB7, 0, 0, 1, 2] 1 0 1
     = Inr \<lparr>index = [], length_r = [], id_r = [], brokenEnd = False\<rparr>
   \<and> do_ldc_ad2cp_in_file [0xA5, 0x0A, 0x15, 0x10, 2, 0, 0x8D, 0xB7, 0, 0, 1, 2] 1 1 1
     = Inr \<lparr>index = [10], length_r = [2], id_r = [21], brokenEnd = False\<rparr>"
  by (simp add: scan_eval)

subsection \<open>A payload cut short\<close>

text \<open>
  When the file ends inside a payload, after \<open>k\<close> full passes, the scan returns the \<open>k\<close>
  records of those passes and leaves the flag as the passes left it.
\<close>

lemma scan_body_short:
  assumes "read_header (fp st) = Inr (h, fp1)" "length fp1 < data_size h"
  shows "\<exists>st'. scan_body st = Inr (Break st')"
  using assms by (simp add: scan_body_def Let_def)

lemma truncated_payload_stops:
  assumes "0 \<le> sint from0" "0 \<le> sint to0" "0 \<le> sint by0"
    and "locate_sync stream 0 = Inr (fp0, c0)"
    and "passes (nat (sint to0)) k (initial_state fp0 c0) = Some st"
    and "chunk st < nat (sint to0)"
    and "read_header (fp st) = Inr (h, fp1)"
    and "length fp1 < data_size h"
  shows "do_ldc_ad2cp_in_file stream from0 to0 by0 =
    Inr \<lparr>index = map (\<lambda>i. sint (index_buf st i)) [0..<k],
         length_r = map (\<lambda>i. sint (length_buf st i)) [0..<k],
         id_r = map (\<lambda>i. sint (id_buf st i)) [0..<k],
         brokenEnd = broken_end st\<rparr>"
proof -
  let ?to = "nat (sint to0)"
  have k: "chunk st = k"
    using passes_chunk[OF assms(5)] by (simp add: initial_state_def)
  from scan_body_short[OF assms(7,8)] obtain st' where b: "scan_body st = Inr (Break st')"
    by blast
  from scan_body_BreakD[OF b] have st': "chunk st' = chunk st" "broken_end st' = broken_end st"
    "\<forall>i<chunk st. index_buf st' i = index_buf st i \<and> length_buf st' i = length_buf st i
        \<and> id_buf st' i = id_buf st i"
    by auto
  have "scan_loop ?to st = Inr st'" using assms(6) b by (simp add: scan_loop.simps)
  with passes_scan_loop[OF assms(5)]
  have "scan_loop ?to (initial_state fp0 c0) = Inr st'" by simp
  with assms(1-4) have "do_ldc_ad2cp_in_file stream from0 to0 by0 = Inr (make_result st')"
    by (simp add: do_ldc_ad2cp_in_file_def)
  moreover have "make_result st' =
    \<lparr>index = map (\<lambda>i. sint (index_buf st i)) [0..<k],
     length_r = map (\<lambda>i. sint (length_buf st i)) [0..<k],
     id_r = map (\<lambda>i. sint (id_buf st i)) [0..<k],
     brokenEnd = broken_end st\<rparr>"
    using st' k by (simp add: make_result_def)
  ultimately show ?thesis by simp
qed

text \<open>
  Claim C2 (the stream ends inside a payload: the scan stops without a fatal error, the
  record in progress is dropped, the earlier records are returned, and the integrity flag
  is set). The code prints its warning and leaves the loop by \<open>break\<close> without assigning
  \<open>broken_end\<close>. The stream below is the frame of C1 followed by a header that announces
  4 bytes of payload of which only 2 are there. Scanned with \<open>to = 2\<close> it returns the
  first record and drops the second, as claimed, but the flag \<open>brokenEnd\<close> stays false.
\<close>

theorem truncated_payload_leaves_flag:
  "do_ldc_ad2cp_in_file
     [0xA5, 0x0A, 0x15, 0x10, 2, 0, 0x8D, 0xB7, 0, 0, 1, 2,
      0xA5, 0x0A, 0x16, 0x10, 4, 0, 0, 0, 0, 0, 1, 2] 1 2 1
     = Inr \<lparr>index = [10], length_r = [2], id_r = [21], brokenEnd = False\<rparr>"
  by (simp add: scan_eval)

subsection \<open>A stream without a sync byte\<close>

text \<open>
  Claim C9 (a stream with no byte 0xA5 fails with the no-sync error before any header is
  decoded, and returns nothing). The locator itself fails, so the loop is never entered;
  the scan is an \<open>Rf_error\<close> for all arguments, and it is the no-sync error whenever
  \<open>from\<close>, \<open>to\<close> and \<open>by\<close> pass their checks, which come first in the code.
\<close>

theorem no_sync_is_fatal:
  assumes "SYNC \<notin> set stream"
  shows "locate_sync stream 0 = Inl (Rf_error No_sync_byte)
    \<and> (\<exists>m. do_ldc_ad2cp_in_file stream from0 to0 by0 = Inl (Rf_error m))
    \<and> (0 \<le> sint from0 \<and> 0 \<le> sint to0 \<and> 0 \<le> sint by0 \<longrightarrow>
         do_ldc_ad2cp_in_file stream from0 to0 by0 = Inl (Rf_error No_sync_byte))"
  using locate_sync_no_sync[OF assms, of 0]
  by (simp add: do_ldc_ad2cp_in_file_def)

theorem no_sync_is_fatal_witness:
  "SYNC \<notin> set [0x01, 0x5A, 0xA4 :: byte]
   \<and> do_ldc_ad2cp_in_file [0x01, 0x5A, 0xA4] 1 0 1 = Inl (Rf_error No_sync_byte)
   \<and> do_ldc_ad2cp_in_file [0x01, 0x5A, 0xA4] 1 7 1 = Inl (Rf_error No_sync_byte)"
proof -
  have h: "SYNC \<notin> set [0x01, 0x5A, 0xA4 :: byte]" by (simp add: SYNC_def)
  show ?thesis
    using h no_sync_is_fatal[OF h, of 1 0 1] no_sync_is_fatal[OF h, of 1 7 1] by simp
qed

subsection \<open>The arguments \<open>from\<close> and \<open>by\<close>\<close>

text \<open>
  Claim C10 (two scans of one stream that differ only in values of \<open>from\<close> and \<open>by\<close>
  that are not negative return the same; a negative value is fatal). After their sign
  checks the two arguments are not read again.
\<close>

theorem from_by_ignored:
  "(0 \<le> sint from1 \<and> 0 \<le> sint by1 \<and> 0 \<le> sint from2 \<and> 0 \<le> sint by2 \<longrightarrow>
      do_ldc_ad2cp_in_file stream from1 to0 by1 = do_ldc_ad2cp_in_file stream from2 to0 by2)
   \<and> (sint from1 < 0 \<longrightarrow>
        do_ldc_ad2cp_in_file stream from1 to0 by1 = Inl (Rf_error Negative_from))
   \<and> (sint by1 < 0 \<longrightarrow> (\<exists>m. do_ldc_ad2cp_in_file stream from1 to0 by1 = Inl (Rf_error m)))"
  by (simp add: do_ldc_ad2cp_in_file_def)

theorem from_by_ignored_witness:
  "do_ldc_ad2cp_in_file [0xA5, 0x0A, 0x15, 0x10, 2, 0, 0x8D, 0xB7, 0, 0, 1, 2] 1 1 1
     = do_ldc_ad2cp_in_file [0xA5, 0x0A, 0x15, 0x10, 2, 0, 0x8D, 0xB7, 0, 0, 1, 2] 5 1 3
   \<and> do_ldc_ad2cp_in_file [0xA5, 0x0A, 0x15, 0x10, 2, 0, 0x8D, 0xB7, 0, 0, 1, 2] (- 1) 1 1
     = Inl (Rf_error Negative_from)"
  using from_by_ignored[of 1 1 5 3 "[0xA5, 0x0A, 0x15, 0x10, 2, 0, 0x8D, 0xB7, 0, 0, 1, 2]" 1]
    from_by_ignored[of "- 1" 1 5 3 "[0xA5, 0x0A, 0x15, 0x10, 2, 0, 0x8D, 0xB7, 0, 0, 1, 2]" 1]
  by simp

subsection \<open>A faulty header\<close>

lemma bytes4_value_Inl:
  assumes "bytes4_value b0 b1 b2 b3 = Inl e"
  shows "e = Undefined Int_overflow \<and> 128 \<le> b3"
proof -
  have b: "uint b1 \<le> 255" "uint b2 \<le> 255"
    using uint_bounded[of b1] uint_bounded[of b2] by simp_all
  define mid where "mid = uint b2 + 256 * uint b3"
  define inner where "inner = uint b1 + 256 * mid"
  from assms have e: "e = Undefined Int_overflow" and gt: "2147483647 < 256 * inner"
    by (simp_all add: bytes4_value_def Let_def INT_MAX_def inner_def mid_def split: if_splits)
  have "128 \<le> uint b3"
  proof (rule ccontr)
    assume "\<not> 128 \<le> uint b3"
    then have "uint b3 \<le> 127" by simp
    then have "mid \<le> 32767" unfolding mid_def using b by linarith
    then have "inner \<le> 8388607" unfolding inner_def using b by linarith
    with gt show False by linarith
  qed
  then have "128 \<le> b3" by (simp add: word_le_def)
  with e show ?thesis by simp
qed

lemma read_checksums_Inl:
  "read_checksums s hs i f dsz inp = Inl e \<Longrightarrow>
     length inp < 4 \<and> (e = Rf_error Cannot_read_data_checksum \<or> e = Rf_error Cannot_read_header_checksum)"
  by (cases "(s, hs, i, f, dsz, inp)" rule: read_checksums.cases) auto

lemma header_fault_Inl:
  assumes "bad_header_size inp \<or> short_header inp"
  shows "\<exists>e. read_header inp = Inl e
    \<and> ((\<exists>m. e = Rf_error m)
       \<or> (e = Undefined Int_overflow \<and> inp ! 1 = 12 \<and> 8 \<le> length inp \<and> 128 \<le> inp ! 7))"
proof (cases "read_header inp")
  case (Inr x)
  obtain h fp1 where x: "x = (h, fp1)" by (cases x)
  from read_header_Inr[OF Inr[unfolded x]] obtain hdr where
    hdr: "inp = hdr @ fp1" "length hdr = unat (header_size h)" "4 \<le> length hdr"
      "hdr ! 1 = header_size h" "header_size h = 10 \<or> header_size h = 12"
    by blast
  from hdr have i1: "inp ! 1 = header_size h" by (simp add: nth_append)
  from hdr have len: "unat (header_size h) \<le> length inp" by simp
  from hdr(5) i1 len assms show ?thesis
    by (auto simp: bad_header_size_def short_header_def)
next
  case (Inl e)
  show ?thesis
  proof (cases e)
    case (Rf_error m)
    with Inl show ?thesis by simp
  next
    case (Undefined u)
    from Inl Undefined obtain i f b0 b1 b2 b3 rest where
      inp: "inp = SYNC # 12 # i # f # b0 # b1 # b2 # b3 # rest" and "128 \<le> b3"
      and "u = Int_overflow"
      by (cases inp)
         (auto split: if_splits list.splits sum.splits dest: bytes4_value_Inl read_checksums_Inl)
    with Inl Undefined show ?thesis by simp
  qed
qed

text \<open>
  Claim C8 (while a header is decoded, a header-size byte other than 10 and 12, or a
  read that yields fewer bytes than a field requires, aborts the whole scan with a fatal
  error; no partial result is returned, even when records were decoded before). The
  scan has made \<open>k\<close> full passes, so \<open>k\<close> records are in the buffers, the limit \<open>to\<close> asks
  for more, and the bytes left in the file have one of the two faults. Then decoding the
  header fails, the failure is the outcome of the whole scan, and no result is returned.
  The failure is an \<open>Rf_error\<close>, with one exception: in a header of size 12 whose data
  size has a last byte of 128 or more, the \<open>int\<close> overflow of claim C5 comes before the
  reads of the two checksums, so that a file that ends inside those has no defined outcome.
\<close>

theorem header_fault_aborts_scan:
  assumes "0 \<le> sint from0" "0 \<le> sint to0" "0 \<le> sint by0"
    and "locate_sync stream 0 = Inr (fp0, c0)"
    and "passes (nat (sint to0)) k (initial_state fp0 c0) = Some st"
    and "chunk st < nat (sint to0)"
    and "bad_header_size (fp st) \<or> short_header (fp st)"
  shows "chunk st = k \<and>
    (\<exists>e. read_header (fp st) = Inl e
        \<and> do_ldc_ad2cp_in_file stream from0 to0 by0 = Inl e
        \<and> ((\<exists>m. e = Rf_error m)
           \<or> (e = Undefined Int_overflow \<and> fp st ! 1 = 12 \<and> 8 \<le> length (fp st)
               \<and> 128 \<le> fp st ! 7)))"
proof -
  from header_fault_Inl[OF assms(7)] obtain e where
    e: "read_header (fp st) = Inl e"
    and kind: "(\<exists>m. e = Rf_error m)
           \<or> (e = Undefined Int_overflow \<and> fp st ! 1 = 12 \<and> 8 \<le> length (fp st)
               \<and> 128 \<le> fp st ! 7)"
    by blast
  have "scan_loop (nat (sint to0)) st = Inl e"
    using assms(6) scan_body_Inl[OF e] by (simp add: scan_loop.simps)
  with passes_scan_loop[OF assms(5)]
  have "scan_loop (nat (sint to0)) (initial_state fp0 c0) = Inl e" by simp
  with assms(1-4) have "do_ldc_ad2cp_in_file stream from0 to0 by0 = Inl e"
    by (simp add: do_ldc_ad2cp_in_file_def)
  moreover have "chunk st = k"
    using passes_chunk[OF assms(5)] by (simp add: initial_state_def)
  ultimately show ?thesis using e kind by blast
qed

theorem header_fault_aborts_scan_witness:
  "passes 2 1 (initial_state
      [0xA5, 0x0A, 0x15, 0x10, 2, 0, 0x8D, 0xB7, 0, 0, 1, 2,
       0xA5, 0x0B, 0x16, 0x10, 0, 0, 0x8C, 0xB5, 0, 0, 0] 0) \<noteq> None
   \<and> bad_header_size [0xA5, 0x0B, 0x16, 0x10, 0, 0, 0x8C, 0xB5, 0, 0, 0]
   \<and> do_ldc_ad2cp_in_file
      [0xA5, 0x0A, 0x15, 0x10, 2, 0, 0x8D, 0xB7, 0, 0, 1, 2,
       0xA5, 0x0B, 0x16, 0x10, 0, 0, 0x8C, 0xB5, 0, 0, 0] 1 2 1
     = Inl (Rf_error Header_size_not_10_or_12)"
proof -
  let ?S = "[0xA5, 0x0A, 0x15, 0x10, 2, 0, 0x8D, 0xB7, 0, 0, 1, 2,
             0xA5, 0x0B, 0x16, 0x10, 0, 0, 0x8C, 0xB5, 0, 0, 0] :: byte list"
  define st where "st = the (passes 2 1 (initial_state ?S 0))"
  have loc: "locate_sync ?S 0 = Inr (?S, 0)" by (simp add: SYNC_def)
  have ps: "passes (nat (sint (2 :: 32 word))) 1 (initial_state ?S 0) = Some st"
    unfolding st_def by (simp add: scan_eval)
  have fp_st: "fp st = [0xA5, 0x0B, 0x16, 0x10, 0, 0, 0x8C, 0xB5, 0, 0, 0]"
    unfolding st_def by (simp add: scan_eval)
  have ch: "chunk st < nat (sint (2 :: 32 word))"
    unfolding st_def by (simp add: scan_eval)
  have bad: "bad_header_size [0xA5, 0x0B, 0x16, 0x10, 0, 0, 0x8C, 0xB5, 0, 0, 0]"
    by (simp add: bad_header_size_def)
  then have fault: "bad_header_size (fp st) \<or> short_header (fp st)"
    by (simp add: fp_st)
  have "\<exists>e. read_header (fp st) = Inl e \<and> do_ldc_ad2cp_in_file ?S 1 2 1 = Inl e"
    using header_fault_aborts_scan[OF _ _ _ loc ps ch fault, of 1 1] by auto
  then obtain e where e: "read_header (fp st) = Inl e"
    and r: "do_ldc_ad2cp_in_file ?S 1 2 1 = Inl e" by blast
  from e have "e = Rf_error Header_size_not_10_or_12" by (simp add: fp_st SYNC_def)
  with r bad ps show ?thesis by simp
qed

subsection \<open>A payload whose checksum does not match\<close>

text \<open>
  Claim C3 (a mismatch of the payload checksum never stops the scan: the record is still
  appended, the integrity flag is set, and decoding goes on with the next frame). The
  scan has made \<open>k\<close> full passes and the limit asks for more; the header at the cursor
  decodes to \<open>h\<close>, its payload is all there, and the checksum \<open>c\<close> that \<open>cs\<close> computes on
  the buffer differs from the field of the header. Then the pass runs to the end of the
  body: the record is in cell \<open>k\<close> of the three buffers, the flag is set, the cursor is
  behind the payload, and the scan is whatever the loop does from that state. Every
  result that the scan returns has the flag set and holds the record at position \<open>k\<close>.
\<close>

theorem checksum_mismatch_continues:
  assumes "0 \<le> sint from0" "0 \<le> sint to0" "0 \<le> sint by0"
    and "locate_sync stream 0 = Inr (fp0, c0)"
    and "passes (nat (sint to0)) k (initial_state fp0 c0) = Some st"
    and "chunk st < nat (sint to0)"
    and "read_header (fp st) = Inr (h, fp1)"
    and "data_size h \<le> length fp1"
    and "cs (load_dbuf (dbuf st) (data_size h) (take (data_size h) fp1))
            (of_nat (data_size h)) = Inr c"
    and "c \<noteq> data_checksum h"
  shows "\<exists>st'. passes (nat (sint to0)) (Suc k) (initial_state fp0 c0) = Some st'
      \<and> fp st' = drop (data_size h) fp1
      \<and> chunk st' = Suc k
      \<and> index_buf st' k = cindex st + ucast (header_size h)
      \<and> length_buf st' k = of_nat (data_size h)
      \<and> id_buf st' k = ucast (id_h h)
      \<and> broken_end st'
      \<and> do_ldc_ad2cp_in_file stream from0 to0 by0 =
          (case scan_loop (nat (sint to0)) st' of Inl e \<Rightarrow> Inl e | Inr s \<Rightarrow> Inr (make_result s))
      \<and> (\<forall>r. do_ldc_ad2cp_in_file stream from0 to0 by0 = Inr r \<longrightarrow>
            brokenEnd r \<and> k < length (index r)
            \<and> index r ! k = sint (cindex st + ucast (header_size h))
            \<and> length_r r ! k = int (data_size h)
            \<and> id_r r ! k = uint (id_h h))"
proof -
  let ?to = "nat (sint to0)"
  have k: "chunk st = k"
    using passes_chunk[OF assms(5)] by (simp add: initial_state_def)
  from scan_body_full[OF assms(7,8,9)] obtain st' where b: "scan_body st = Inr (Continue st')"
    by blast
  from scan_body_ContinueD[OF b] assms(7,9,10) k
  have st': "fp st' = drop (data_size h) fp1" "chunk st' = Suc k"
    "index_buf st' k = cindex st + ucast (header_size h)"
    "length_buf st' k = of_nat (data_size h)" "id_buf st' k = ucast (id_h h)" "broken_end st'"
    by auto
  have p: "passes ?to (Suc k) (initial_state fp0 c0) = Some st'"
    by (rule passes_Suc_end[OF assms(5,6) b])
  have run: "do_ldc_ad2cp_in_file stream from0 to0 by0 =
      (case scan_loop ?to st' of Inl e \<Rightarrow> Inl e | Inr s \<Rightarrow> Inr (make_result s))"
    using assms(1-4) passes_scan_loop[OF p] by (simp add: do_ldc_ad2cp_in_file_def)
  have fin: "brokenEnd r \<and> k < length (index r)
            \<and> index r ! k = sint (cindex st + ucast (header_size h))
            \<and> length_r r ! k = int (data_size h)
            \<and> id_r r ! k = uint (id_h h)"
    if r: "do_ldc_ad2cp_in_file stream from0 to0 by0 = Inr r" for r
  proof -
    from r run obtain s where s: "scan_loop ?to st' = Inr s" and rs: "r = make_result s"
      by (auto split: sum.splits)
    from scan_loop_keeps[OF s] st'
    have ks: "Suc k \<le> chunk s" "broken_end s" "index_buf s k = cindex st + ucast (header_size h)"
      "length_buf s k = of_nat (data_size h)" "id_buf s k = ucast (id_h h)"
      by auto
    from read_header_Inr[OF assms(7)] have small: "data_size h < 2147483648" by blast
    have len: "sint (word_of_nat (data_size h) :: 32 word) = int (data_size h)"
      using small by (rule sint_of_nat_32)
    have idv: "sint (ucast (id_h h) :: 32 word) = uint (id_h h)"
      by (rule sint_ucast_byte)
    from ks len idv rs show ?thesis by (simp add: make_result_def)
  qed
  from p st' run fin show ?thesis by blast
qed

theorem checksum_mismatch_continues_witness:
  "read_header [0xA5, 0x0A, 0x15, 0x10, 2, 0, 0, 0, 0, 0, 1, 2,
                0xA5, 0x0A, 0x16, 0x10, 2, 0, 0x8D, 0xB7, 0, 0, 1, 2]
     = Inr (\<lparr>sync = 0xA5, header_size = 10, id_h = 0x15, family = 0x10, data_size = 2,
             data_checksum = 0, header_checksum = 0\<rparr>,
            [1, 2, 0xA5, 0x0A, 0x16, 0x10, 2, 0, 0x8D, 0xB7, 0, 0, 1, 2])
   \<and> cs (load_dbuf (replicate 10000 0) 2 [1, 2]) 2 = Inr 0xB78D
   \<and> do_ldc_ad2cp_in_file
       [0xA5, 0x0A, 0x15, 0x10, 2, 0, 0, 0, 0, 0, 1, 2,
        0xA5, 0x0A, 0x16, 0x10, 2, 0, 0x8D, 0xB7, 0, 0, 1, 2] 1 2 1
     = Inr \<lparr>index = [10, 22], length_r = [2, 2], id_r = [21, 22], brokenEnd = True\<rparr>"
proof -
  let ?S = "[0xA5, 0x0A, 0x15, 0x10, 2, 0, 0, 0, 0, 0, 1, 2,
             0xA5, 0x0A, 0x16, 0x10, 2, 0, 0x8D, 0xB7, 0, 0, 1, 2] :: byte list"
  let ?rest = "[1, 2, 0xA5, 0x0A, 0x16, 0x10, 2, 0, 0x8D, 0xB7, 0, 0, 1, 2] :: byte list"
  let ?h = "\<lparr>sync = 0xA5, header_size = 10, id_h = 0x15, family = 0x10, data_size = 2,
             data_checksum = 0, header_checksum = 0\<rparr>"
  let ?st = "initial_state ?S 0"
  have loc: "locate_sync ?S 0 = Inr (?S, 0)" by (simp add: SYNC_def)
  have ps: "passes (nat (sint (2 :: 32 word))) 0 ?st = Some ?st" by simp
  have ch: "chunk ?st < nat (sint (2 :: 32 word))" by (simp add: initial_state_def)
  have rh: "read_header ?S = Inr (?h, ?rest)"
    by (simp add: SYNC_def bytes2_value_def bytes2_short_def)
  then have rh': "read_header (fp ?st) = Inr (?h, ?rest)" by (simp add: initial_state_def)
  have full: "data_size ?h \<le> length ?rest" by simp
  have c: "cs (load_dbuf (replicate 10000 0) 2 [1, 2]) 2 = Inr 0xB78D"
    by (simp add: load_dbuf_def cs_def cs_loop.simps)
  then have c': "cs (load_dbuf (dbuf ?st) (data_size ?h) (take (data_size ?h) ?rest))
      (of_nat (data_size ?h)) = Inr 0xB78D"
    by (simp add: initial_state_def)
  have ne: "(0xB78D :: 16 word) \<noteq> data_checksum ?h" by simp
  from checksum_mismatch_continues[OF _ _ _ loc ps ch rh' full c' ne, of 1 1]
  obtain st' where run: "do_ldc_ad2cp_in_file ?S 1 2 1 =
      (case scan_loop (nat (sint (2 :: 32 word))) st' of
         Inl e \<Rightarrow> Inl e | Inr s \<Rightarrow> Inr (make_result s))"
    and fin: "\<forall>r. do_ldc_ad2cp_in_file ?S 1 2 1 = Inr r \<longrightarrow> brokenEnd r"
    by auto
  have "do_ldc_ad2cp_in_file ?S 1 2 1
     = Inr \<lparr>index = [10, 22], length_r = [2, 2], id_r = [21, 22], brokenEnd = True\<rparr>"
    by (simp add: scan_eval)
  with rh c run fin show ?thesis by simp
qed

subsection \<open>The width of the data size\<close>

text \<open>
  A header of size 10 has a data size of two bytes and a header of size 12 one of four
  bytes, low byte first. The four bytes are decoded when the last of them is below 128;
  from 128 on the \<open>int\<close> product overflows.
\<close>

lemma data_size_two_bytes:
  "read_header (SYNC # 10 # i # f # b0 # b1 # c0 # c1 # h0 # h1 # rest) =
     Inr (\<lparr>sync = SYNC, header_size = 10, id_h = i, family = f,
           data_size = unat b0 + 256 * unat b1,
           data_checksum = bytes2_short c0 c1, header_checksum = bytes2_short h0 h1\<rparr>, rest)"
  by (simp add: bytes2_value_def nat_add_distrib nat_mult_distrib)

lemma bytes4_value_Inr:
  assumes "b3 < 128"
  shows "bytes4_value b0 b1 b2 b3 =
    Inr (uint b0 + 256 * uint b1 + 65536 * uint b2 + 16777216 * uint b3)"
proof -
  have b: "uint b1 \<le> 255" "uint b2 \<le> 255"
    using uint_bounded[of b1] uint_bounded[of b2] by simp_all
  from assms have b3: "uint b3 \<le> 127" by (simp add: word_less_def)
  define mid where "mid = uint b2 + 256 * uint b3"
  define inner where "inner = uint b1 + 256 * mid"
  have "mid \<le> 32767" unfolding mid_def using b b3 by linarith
  then have "inner \<le> 8388607" unfolding inner_def using b by linarith
  then have "\<not> INT_MAX < 256 * inner" unfolding INT_MAX_def by linarith
  then show ?thesis
    by (simp add: bytes4_value_def Let_def inner_def mid_def)
qed

lemma data_size_four_bytes:
  assumes "b3 < 128"
  shows "read_header (SYNC # 12 # i # f # b0 # b1 # b2 # b3 # c0 # c1 # h0 # h1 # rest) =
     Inr (\<lparr>sync = SYNC, header_size = 12, id_h = i, family = f,
           data_size = unat b0 + 256 * unat b1 + 65536 * unat b2 + 16777216 * unat b3,
           data_checksum = bytes2_short c0 c1, header_checksum = bytes2_short h0 h1\<rparr>, rest)"
  by (simp add: bytes4_value_Inr[OF assms] nat_add_distrib nat_mult_distrib)

lemma data_size_four_bytes_overflow:
  assumes "128 \<le> b3"
  shows "read_header (SYNC # 12 # i # f # b0 # b1 # b2 # b3 # rest) = Inl (Undefined Int_overflow)"
proof -
  from assms have b3: "128 \<le> uint b3" by (simp add: word_le_def)
  have b: "0 \<le> uint b1" "0 \<le> uint b2" by simp_all
  define mid where "mid = uint b2 + 256 * uint b3"
  define inner where "inner = uint b1 + 256 * mid"
  have "32768 \<le> mid" unfolding mid_def using b b3 by linarith
  then have "8388608 \<le> inner" unfolding inner_def using b by linarith
  then have "INT_MAX < 256 * inner" unfolding INT_MAX_def by linarith
  then have "bytes4_value b0 b1 b2 b3 = Inl (Undefined Int_overflow)"
    by (simp add: bytes4_value_def Let_def inner_def mid_def)
  then show ?thesis by simp
qed

text \<open>
  Claim C5 (header size 10 selects a 16-bit and header size 12 a 32-bit unsigned
  little-endian data size; a data size above 65535 is decoded and that many bytes of
  payload are read). The field is 32 bits unsigned, as the table in the comment of the
  source says, but the code computes it in \<open>int\<close>. The header below has size 12 and the
  data size bytes 00 00 00 80, the value \<open>2^31\<close>: the product
  \<open>256 * (0 + 256 * (0 + 256 * 128))\<close> is \<open>2^31\<close> and exceeds \<open>INT_MAX\<close>, so the scan has no
  defined outcome, where the claim promises the value \<open>2^31\<close>. Sizes from 65536 up to
  \<open>2^31 - 1\<close> are decoded as claimed (\<open>data_size_four_bytes\<close>), and the pass reads
  exactly \<open>data_size\<close> bytes (\<open>scan_body_ContinueD\<close>).
\<close>

theorem data_size_overflows_int:
  "read_header [0xA5, 0x0C, 0x15, 0x10, 0, 0, 0, 0x80, 0x8C, 0xB5, 0, 0]
     = Inl (Undefined Int_overflow)
   \<and> do_ldc_ad2cp_in_file [0xA5, 0x0C, 0x15, 0x10, 0, 0, 0, 0x80, 0x8C, 0xB5, 0, 0] 1 1 1
     = Inl (Undefined Int_overflow)"
  by (simp add: scan_eval)

subsection \<open>The checksum of a payload\<close>

text \<open>
  On a payload of even length below 65536 that lies at the front of the buffer, \<open>cs\<close>
  computes the checksum of the specification.
\<close>

lemma cs_loop_pairs:
  "even (length p) \<Longrightarrow>
   cs_loop (pre @ p @ junk) (length pre + length p) (length pre) acc = Inr (acc + pair_sum p)"
proof (induction p arbitrary: pre acc rule: pair_sum.induct)
  case (1 a b p)
  have "cs_loop (pre @ (a # b # p) @ junk) (length pre + length (a # b # p)) (length pre) acc
      = cs_loop ((pre @ [a, b]) @ p @ junk) (length (pre @ [a, b]) + length p)
          (length (pre @ [a, b])) (acc + (ucast a + 256 * ucast b))"
    by (subst cs_loop.simps) (simp add: nth_append)
  also have "\<dots> = Inr (acc + (ucast a + 256 * ucast b) + pair_sum p)"
    using "1.prems" by (intro "1.IH") simp
  finally show ?case by (simp add: add.assoc)
qed (simp_all add: cs_loop.simps)

lemma cs_even_payload:
  assumes "even (length p)" "length p < 65536"
  shows "cs (p @ junk) (of_nat (length p)) = Inr (claimed_checksum p)"
proof -
  have "unat (word_of_nat (length p) :: 16 word) = length p"
    using assms(2) by (simp add: unat_of_nat)
  with cs_loop_pairs[OF assms(1), of "[]" junk "0xB58C"] show ?thesis
    by (simp add: cs_def claimed_checksum_def)
qed

lemma load_dbuf_full:
  "n \<le> length inp \<Longrightarrow> \<exists>junk. load_dbuf buf n (take n inp) = take n inp @ junk"
  by (simp add: load_dbuf_def)

lemma pair_sum_zeros: "pair_sum (replicate n 0) = 0"
proof (induction n rule: less_induct)
  case (less n)
  show ?case
  proof (cases n)
    case 0
    then show ?thesis by simp
  next
    case (Suc m)
    show ?thesis
    proof (cases m)
      case 0
      with Suc show ?thesis by simp
    next
      case (Suc j)
      with \<open>n = Suc m\<close> less.IH[of j] show ?thesis by simp
    qed
  qed
qed

lemma compared_checksum:
  assumes "read_header (fp st) = Inr (h, fp1)" "data_size h \<le> length fp1"
    and "even (data_size h)" "data_size h < 65536"
  shows "cs (load_dbuf (dbuf st) (data_size h) (take (data_size h) fp1)) (of_nat (data_size h))
    = Inr (claimed_checksum (take (data_size h) fp1))"
proof -
  from load_dbuf_full[OF assms(2)] obtain junk where
    j: "load_dbuf (dbuf st) (data_size h) (take (data_size h) fp1) = take (data_size h) fp1 @ junk"
    by blast
  have l: "length (take (data_size h) fp1) = data_size h" using assms(2) by simp
  from cs_even_payload[of "take (data_size h) fp1" junk] assms(3,4) l j show ?thesis by simp
qed

text \<open>
  Claim C4 (for every payload of even length \<open>n\<close> the checksum that is computed and
  compared with the header field is 0xB58C plus the sum of the byte pairs modulo
  \<open>2^16\<close>). \<open>cs\<close> takes the length as an \<open>unsigned short\<close>, and the scan passes it the
  \<open>unsigned long\<close> data size: from 65536 bytes on only the first \<open>n mod 65536\<close> bytes are
  summed. The frame below has header size 12 and a payload of 65536 bytes, a one
  followed by zeros, whose checksum is 0xB58D. With that checksum in the header the scan
  reports a mismatch; with 0xB58C, the checksum of no bytes at all, it reports none.
\<close>

theorem long_payload_checksum_truncated:
  "claimed_checksum (1 # replicate 65535 0) = 0xB58D
   \<and> do_ldc_ad2cp_in_file
       ([0xA5, 0x0C, 0x15, 0x10, 0, 0, 1, 0, 0x8D, 0xB5, 0, 0] @ 1 # replicate 65535 0) 1 1 1
     = Inr \<lparr>index = [12], length_r = [65536], id_r = [21], brokenEnd = True\<rparr>
   \<and> do_ldc_ad2cp_in_file
       ([0xA5, 0x0C, 0x15, 0x10, 0, 0, 1, 0, 0x8C, 0xB5, 0, 0] @ 1 # replicate 65535 0) 1 1 1
     = Inr \<lparr>index = [12], length_r = [65536], id_r = [21], brokenEnd = False\<rparr>"
proof -
  have "(65535 :: nat) = Suc 65534" by simp
  then have "replicate 65535 (0 :: byte) = 0 # replicate 65534 0"
    by (simp only: replicate_Suc)
  then have "pair_sum (1 # replicate 65535 0) = 1"
    by (simp add: pair_sum_zeros)
  then have a: "claimed_checksum (1 # replicate 65535 0) = 0xB58D"
    by (simp add: claimed_checksum_def)
  have b: "do_ldc_ad2cp_in_file
       ([0xA5, 0x0C, 0x15, 0x10, 0, 0, 1, 0, 0x8D, 0xB5, 0, 0] @ 1 # replicate 65535 0) 1 1 1
     = Inr \<lparr>index = [12], length_r = [65536], id_r = [21], brokenEnd = True\<rparr>"
    by (simp add: scan_eval)
  have c: "do_ldc_ad2cp_in_file
       ([0xA5, 0x0C, 0x15, 0x10, 0, 0, 1, 0, 0x8C, 0xB5, 0, 0] @ 1 # replicate 65535 0) 1 1 1
     = Inr \<lparr>index = [12], length_r = [65536], id_r = [21], brokenEnd = False\<rparr>"
    by (simp add: scan_eval)
  from a b c show ?thesis by simp
qed

subsection \<open>Offsets of the records\<close>

lemma locate_sync_Inr:
  "locate_sync inp c = Inr (fp0, c0) \<Longrightarrow>
     fp0 = dropWhile (\<lambda>b. b \<noteq> SYNC) inp
     \<and> c0 = c + of_nat (length (takeWhile (\<lambda>b. b \<noteq> SYNC) inp))
     \<and> fp0 \<noteq> [] \<and> hd fp0 = SYNC"
proof (induction inp arbitrary: c)
  case Nil
  then show ?case by simp
next
  case (Cons b inp)
  show ?case
  proof (cases "b = SYNC")
    case True
    with Cons.prems show ?thesis by auto
  next
    case False
    with Cons.prems have "locate_sync inp (c + 1) = Inr (fp0, c0)" by simp
    from Cons.IH[OF this] have ih: "fp0 = dropWhile (\<lambda>b. b \<noteq> SYNC) inp"
      "c0 = c + 1 + of_nat (length (takeWhile (\<lambda>b. b \<noteq> SYNC) inp))"
      "fp0 \<noteq> []" "hd fp0 = SYNC"
      by blast+
    have "fp0 = dropWhile (\<lambda>b. b \<noteq> SYNC) (b # inp)" using ih(1) False by simp
    moreover have "c0 = c + of_nat (length (takeWhile (\<lambda>b. b \<noteq> SYNC) (b # inp)))"
      using ih(2) False by (simp add: add.assoc)
    ultimately show ?thesis using ih(3,4) by blast
  qed
qed

lemma unat_add_32:
  "unat (a :: 32 word) + unat (b :: 32 word) < 4294967296 \<Longrightarrow> unat (a + b) = unat a + unat b"
  using unat_add_lem[of a b] by simp

lemma step_Continue_tracks:
  assumes len: "length s < 4294967296"
    and cur: "at_cursor s st" and lnk: "linked s st"
    and body: "scan_body st = Inr (Continue st')"
  shows "at_cursor s st' \<and> linked s st'"
proof -
  from scan_body_ContinueD[OF body] obtain h fp1 where
    rh: "read_header (fp st) = Inr (h, fp1)" and full: "data_size h \<le> length fp1"
    and fp': "fp st' = drop (data_size h) fp1"
    and ci': "cindex st' = cindex st + ucast (header_size h) + of_nat (data_size h)"
    and ch': "chunk st' = chunk st + 1"
    and ib': "index_buf st' = (index_buf st)(chunk st := cindex st + ucast (header_size h))"
    and lb': "length_buf st' = (length_buf st)(chunk st := of_nat (data_size h))"
    by blast
  from read_header_Inr[OF rh] obtain hdr where
    split: "fp st = hdr @ fp1" and lh: "length hdr = unat (header_size h)" and l4: "4 \<le> length hdr"
    and h1: "hdr ! 1 = header_size h" and hs: "header_size h = 10 \<or> header_size h = 12"
    by blast
  define pos where "pos = length s - length (fp st)"
  define hsz where "hsz = unat (header_size h)"
  define n where "n = data_size h"
  from cur have c1: "length (fp st) \<le> length s" and c2: "fp st = drop pos s"
    and c3: "unat (cindex st) = pos"
    and c4: "0 < chunk st \<Longrightarrow>
      unat (index_buf st (chunk st - 1)) + unat (length_buf st (chunk st - 1)) = pos"
    by (simp_all add: at_cursor_def pos_def)
  have lfp: "length (fp st) = hsz + length fp1" using split lh by (simp add: hsz_def)
  have hsz4: "4 \<le> hsz" using l4 lh by (simp add: hsz_def)
  have posle: "pos + hsz + n \<le> length s"
    using c1 lfp full by (simp add: pos_def n_def)
  have lfp': "length (fp st') = length fp1 - n" using fp' by (simp add: n_def)
  have pos': "length s - length (fp st') = pos + hsz + n"
    using c1 lfp full lfp' by (simp add: pos_def n_def)
  have fp1: "fp1 = drop hsz (fp st)" using split lh by (simp add: hsz_def)
  have a2: "fp st' = drop (pos + hsz + n) s"
    using fp' fp1 c2 by (simp add: n_def add.commute add.left_commute)
  have byte1: "s ! (pos + 1) = header_size h"
  proof -
    have "fp st ! 1 = hdr ! 1" using split l4 by (simp add: nth_append)
    moreover have "drop pos s ! 1 = s ! (pos + 1)"
      using c1 by (simp add: pos_def)
    ultimately show ?thesis using c2 h1 by simp
  qed
  have pos1: "pos + 1 < length s" using posle hsz4 by simp
  have uh: "unat (ucast (header_size h) :: 32 word) = hsz"
    by (simp add: unat_ucast_byte hsz_def)
  have un: "unat (word_of_nat n :: 32 word) = n"
    using posle len by (intro unat_of_nat_32) simp
  have u1: "unat (cindex st + ucast (header_size h)) = pos + hsz"
    using c3 uh posle len by (subst unat_add_32) simp_all
  have u2: "unat (cindex st + ucast (header_size h) + word_of_nat n) = pos + hsz + n"
    using u1 un posle len by (subst unat_add_32) simp_all
  have new_cell: "unat (index_buf st' (chunk st)) + unat (length_buf st' (chunk st)) = pos + hsz + n"
    using ib' lb' u1 un by (simp add: n_def)
  have old_ib: "index_buf st' i = index_buf st i" if "i < chunk st" for i
    using that ib' by simp
  have old_lb: "length_buf st' i = length_buf st i" if "i < chunk st" for i
    using that lb' by simp
  have cur': "at_cursor s st'"
    unfolding at_cursor_def
    using lfp' full c1 lfp a2 pos' u2 ci' ch' new_cell by (simp add: n_def)
  have bound: "unat (index_buf st' i) + unat (length_buf st' i) \<le> length s"
    if "i < chunk st'" for i
  proof (cases "i < chunk st")
    case True
    with lnk old_ib[OF True] old_lb[OF True] show ?thesis by (simp add: linked_def)
  next
    case False
    with that ch' have "i = chunk st" by simp
    with new_cell posle show ?thesis by simp
  qed
  have chain: "unat (index_buf st' i) + unat (length_buf st' i) + 1 < length s
      \<and> (s ! (unat (index_buf st' i) + unat (length_buf st' i) + 1) = 10
         \<or> s ! (unat (index_buf st' i) + unat (length_buf st' i) + 1) = 12)
      \<and> unat (index_buf st' (Suc i))
          = unat (index_buf st' i) + unat (length_buf st' i)
            + unat (s ! (unat (index_buf st' i) + unat (length_buf st' i) + 1))"
    if "Suc i < chunk st'" for i
  proof (cases "Suc i < chunk st")
    case True
    then have "i < chunk st" by simp
    with lnk True old_ib[OF True] old_ib[OF this] old_lb[OF this] show ?thesis
      by (simp add: linked_def)
  next
    case False
    with that ch' have i: "Suc i = chunk st" by simp
    then have ilt: "i < chunk st" and pc: "0 < chunk st" and im: "chunk st - 1 = i" by simp_all
    from c4[OF pc] im have e: "unat (index_buf st i) + unat (length_buf st i) = pos" by simp
    have "unat (index_buf st' (Suc i)) = pos + hsz" using ib' u1 i by simp
    with e old_ib[OF ilt] old_lb[OF ilt] pos1 byte1 hs show ?thesis
      by (simp add: hsz_def)
  qed
  from bound chain have "linked s st'" unfolding linked_def by blast
  with cur' show ?thesis by simp
qed

lemma step_Break_linked:
  assumes "linked s st" "scan_body st = Inr (Break st')"
  shows "linked s st'"
proof -
  from scan_body_BreakD[OF assms(2)] have ch: "chunk st' = chunk st"
    and ib: "index_buf st' = (index_buf st)(chunk st := cindex st')"
    and "\<exists>v. length_buf st' = (length_buf st)(chunk st := v)"
    by auto
  then obtain v where lb: "length_buf st' = (length_buf st)(chunk st := v)" by blast
  have "index_buf st' i = index_buf st i \<and> length_buf st' i = length_buf st i"
    if "i < chunk st" for i using that ib lb by simp
  with assms(1) ch show ?thesis unfolding linked_def by simp
qed

lemma scan_loop_linked:
  assumes "scan_loop to_value st = Inr st'" "length s < 4294967296"
    and "at_cursor s st" "linked s st"
  shows "linked s st'"
  using assms
proof (induction rule: scan_loop_Inr_induct)
  case (stop st)
  then show ?case by simp
next
  case (break st st')
  then show ?case using step_Break_linked by blast
next
  case (continue st st' sf)
  from step_Continue_tracks[OF continue(5,6,7) continue(2)] continue(4)[OF continue(5)]
  show ?case by simp
qed

lemma first_record:
  assumes "scan_loop to_value (initial_state fp0 c0) = Inr st'" "0 < chunk st'"
  shows "index_buf st' 0 = c0 + ucast (fp0 ! 1)"
proof -
  let ?i = "initial_state fp0 c0"
  have c0: "chunk ?i = 0" "fp ?i = fp0" "cindex ?i = c0" by (simp_all add: initial_state_def)
  have lt: "chunk ?i < to_value"
  proof (rule ccontr)
    assume "\<not> chunk ?i < to_value"
    with assms(1) have "st' = ?i" by (simp add: scan_loop.simps)
    with assms(2) c0 show False by simp
  qed
  show ?thesis
  proof (cases "scan_body ?i")
    case (Inl e)
    with lt assms(1) show ?thesis by (simp add: scan_loop.simps)
  next
    case (Inr x)
    show ?thesis
    proof (cases x)
      case (Break b)
      with lt Inr assms(1) have "st' = b" by (simp add: scan_loop.simps)
      with scan_body_Break_chunk[of ?i b] Inr Break assms(2) c0 show ?thesis by simp
    next
      case (Continue st1)
      with Inr have b: "scan_body ?i = Inr (Continue st1)" by simp
      with lt assms(1) have run: "scan_loop to_value st1 = Inr st'" by (simp add: scan_loop.simps)
      from scan_body_ContinueD[OF b] c0 obtain h fp1 where
        rh: "read_header fp0 = Inr (h, fp1)" and ch1: "chunk st1 = 1"
        and ib: "index_buf st1 = (index_buf ?i)(0 := c0 + ucast (header_size h))"
        by auto
      from read_header_Inr[OF rh] obtain hdr where
        "fp0 = hdr @ fp1" "4 \<le> length hdr" "hdr ! 1 = header_size h" by blast
      then have "fp0 ! 1 = header_size h" by (simp add: nth_append)
      moreover from scan_loop_keeps[OF run] ch1 have "index_buf st' 0 = index_buf st1 0" by simp
      ultimately show ?thesis using ib by simp
    qed
  qed
qed

lemma initial_tracks:
  assumes "locate_sync s 0 = Inr (fp0, c0)" "length s < 4294967296"
  shows "at_cursor s (initial_state fp0 c0) \<and> linked s (initial_state fp0 c0)
    \<and> fp0 = drop (length (takeWhile (\<lambda>b. b \<noteq> SYNC) s)) s
    \<and> unat c0 = length (takeWhile (\<lambda>b. b \<noteq> SYNC) s)"
proof -
  let ?P = "\<lambda>b. b \<noteq> SYNC"
  define M where "M = length (takeWhile ?P s)"
  from locate_sync_Inr[OF assms(1)] have fp0: "fp0 = dropWhile ?P s" and c0: "c0 = of_nat M"
    by (simp_all add: M_def)
  have Mle: "M \<le> length s" unfolding M_def by (rule length_takeWhile_le)
  have dr: "fp0 = drop M s" unfolding fp0 M_def by (rule dropWhile_eq_drop)
  then have lf: "length fp0 = length s - M" by simp
  have uc: "unat c0 = M" unfolding c0 using Mle assms(2) by (intro unat_of_nat_32) simp
  have "at_cursor s (initial_state fp0 c0)"
    unfolding at_cursor_def using Mle dr lf uc by (simp add: initial_state_def)
  moreover have "linked s (initial_state fp0 c0)"
    by (simp add: linked_def initial_state_def)
  ultimately show ?thesis using dr uc by (simp add: M_def)
qed

lemma result_cells:
  assumes "do_ldc_ad2cp_in_file s from0 to0 by0 = Inr r" and "length s < 2147483648"
  shows "\<exists>fp0 c0 st'. locate_sync s 0 = Inr (fp0, c0)
    \<and> scan_loop (nat (sint to0)) (initial_state fp0 c0) = Inr st'
    \<and> r = make_result st' \<and> linked s st'
    \<and> length (index r) = chunk st' \<and> length (length_r r) = chunk st'
    \<and> (\<forall>i<chunk st'. unat (index_buf st' i) + unat (length_buf st' i) \<le> length s
          \<and> index r ! i = int (unat (index_buf st' i))
          \<and> length_r r ! i = int (unat (length_buf st' i)))"
proof -
  let ?to = "nat (sint to0)"
  from assms(1) obtain fp0 c0 st' where loc: "locate_sync s 0 = Inr (fp0, c0)"
    and run: "scan_loop ?to (initial_state fp0 c0) = Inr st'" and r: "r = make_result st'"
    by (auto simp: do_ldc_ad2cp_in_file_def split: if_splits sum.splits prod.splits)
  have len: "length s < 4294967296" using assms(2) by simp
  from initial_tracks[OF loc len] have cur: "at_cursor s (initial_state fp0 c0)"
    and lnk0: "linked s (initial_state fp0 c0)"
    by blast+
  have lnk: "linked s st'" by (rule scan_loop_linked[OF run len cur lnk0])
  have cells: "unat (index_buf st' i) + unat (length_buf st' i) \<le> length s
      \<and> index r ! i = int (unat (index_buf st' i))
      \<and> length_r r ! i = int (unat (length_buf st' i))" if "i < chunk st'" for i
  proof -
    from lnk that have le: "unat (index_buf st' i) + unat (length_buf st' i) \<le> length s"
      by (simp add: linked_def)
    with assms(2) have "unat (index_buf st' i) < 2147483648" "unat (length_buf st' i) < 2147483648"
      by simp_all
    with that r le show ?thesis
      by (simp add: make_result_def sint_eq_unat_32)
  qed
  have n: "length (index r) = chunk st'" "length (length_r r) = chunk st'"
    using r by (simp_all add: make_result_def)
  from loc run r lnk n cells show ?thesis by blast
qed

lemma first_offset:
  assumes "do_ldc_ad2cp_in_file s from0 to0 by0 = Inr r" and "length s < 2147483648"
    and "index r \<noteq> []"
  shows "index r ! 0 = int (length (takeWhile (\<lambda>b. b \<noteq> SYNC) s))
                        + uint (s ! (length (takeWhile (\<lambda>b. b \<noteq> SYNC) s) + 1))"
proof -
  define M where "M = length (takeWhile (\<lambda>b. b \<noteq> SYNC) s)"
  from result_cells[OF assms(1,2)] obtain fp0 c0 st' where
    loc: "locate_sync s 0 = Inr (fp0, c0)"
    and run: "scan_loop (nat (sint to0)) (initial_state fp0 c0) = Inr st'"
    and n: "length (index r) = chunk st'"
    and cells: "\<forall>i<chunk st'. index r ! i = int (unat (index_buf st' i))"
    by blast
  have len: "length s < 4294967296" using assms(2) by simp
  from initial_tracks[OF loc len] have dr: "fp0 = drop M s" and uc: "unat c0 = M"
    unfolding M_def by blast+
  from assms(3) n have pc: "0 < chunk st'" by (cases "index r") auto
  have Mle: "M \<le> length s" unfolding M_def by (rule length_takeWhile_le)
  have b1: "fp0 ! 1 = s ! (M + 1)" using dr Mle by simp
  have "unat (ucast (fp0 ! 1) :: 32 word) = unat (fp0 ! 1)" by (rule unat_ucast_byte)
  moreover have "unat (fp0 ! 1) < 256" by (rule unat_byte_less)
  ultimately have u: "unat (c0 + ucast (fp0 ! 1)) = M + unat (fp0 ! 1)"
    using uc Mle assms(2) by (subst unat_add_32) simp_all
  have "index r ! 0 = int (unat (index_buf st' 0))" using cells pc by blast
  also have "\<dots> = int (M + unat (fp0 ! 1))"
    by (simp only: first_record[OF run pc] u)
  also have "\<dots> = int M + uint (s ! (M + 1))"
    by (simp only: b1 of_nat_add uint_nat)
  finally show ?thesis unfolding M_def .
qed

text \<open>
  Claim C6, as amended (for a stream shorter than \<open>2^31\<close> bytes). When the scan returns a
  result, the offset of each record after the first is the offset of the record before
  it plus that record's length plus the header size of its own frame, the byte 10 or 12
  that follows the sync byte behind the earlier payload; so the offsets increase
  strictly. The offset of the first record is the number of bytes skipped before the
  first sync byte plus the header size of the first frame.
\<close>

theorem offsets_linked:
  assumes "do_ldc_ad2cp_in_file s from0 to0 by0 = Inr r" and "length s < 2147483648"
  shows "length (length_r r) = length (index r)
    \<and> (\<forall>i. Suc i < length (index r) \<longrightarrow>
          (s ! nat (index r ! i + length_r r ! i + 1) = 10
           \<or> s ! nat (index r ! i + length_r r ! i + 1) = 12)
          \<and> index r ! Suc i
              = index r ! i + length_r r ! i + uint (s ! nat (index r ! i + length_r r ! i + 1))
          \<and> index r ! i < index r ! Suc i)
    \<and> (index r \<noteq> [] \<longrightarrow>
          index r ! 0 = int (length (takeWhile (\<lambda>b. b \<noteq> SYNC) s))
                        + uint (s ! (length (takeWhile (\<lambda>b. b \<noteq> SYNC) s) + 1)))"
proof -
  from result_cells[OF assms] obtain st' where lnk: "linked s st'"
    and n: "length (index r) = chunk st'" "length (length_r r) = chunk st'"
    and cells: "\<forall>i<chunk st'. index r ! i = int (unat (index_buf st' i))
          \<and> length_r r ! i = int (unat (length_buf st' i))"
    by blast
  have link: "(s ! nat (index r ! i + length_r r ! i + 1) = 10
           \<or> s ! nat (index r ! i + length_r r ! i + 1) = 12)
          \<and> index r ! Suc i
              = index r ! i + length_r r ! i + uint (s ! nat (index r ! i + length_r r ! i + 1))
          \<and> index r ! i < index r ! Suc i" if "Suc i < length (index r)" for i
  proof -
    from that n have si: "Suc i < chunk st'" and i: "i < chunk st'" by simp_all
    define e where "e = unat (index_buf st' i) + unat (length_buf st' i)"
    from lnk si have hs: "s ! (e + 1) = 10 \<or> s ! (e + 1) = 12"
      and nx: "unat (index_buf st' (Suc i)) = e + unat (s ! (e + 1))"
      by (simp_all add: linked_def e_def)
    from cells i have idx: "index r ! i = int (unat (index_buf st' i))"
      and lng: "length_r r ! i = int (unat (length_buf st' i))" by blast+
    from cells si have idx': "index r ! Suc i = int (unat (index_buf st' (Suc i)))" by blast
    have sum: "index r ! i + length_r r ! i = int e"
      using idx lng by (simp add: e_def)
    then have ne: "nat (index r ! i + length_r r ! i + 1) = e + 1" by simp
    have nxt: "index r ! Suc i = int e + uint (s ! (e + 1))"
      using idx' nx by simp
    have pos: "0 < uint (s ! (e + 1))" using hs by auto
    have "index r ! i \<le> int e" using idx by (simp add: e_def)
    with nxt pos have lt: "index r ! i < index r ! Suc i" by linarith
    show ?thesis unfolding ne using hs nxt sum lt by simp
  qed
  have A: "length (length_r r) = length (index r)" using n by simp
  from A link first_offset[OF assms] show ?thesis by blast
qed

theorem offsets_linked_witness:
  "do_ldc_ad2cp_in_file
     [7, 0xA5, 0x0A, 0x15, 0x10, 2, 0, 0x8D, 0xB7, 0, 0, 1, 2,
      0xA5, 0x0C, 0x16, 0x10, 0, 0, 0, 0, 0x8C, 0xB5, 0, 0] 1 2 1
     = Inr \<lparr>index = [11, 25], length_r = [2, 0], id_r = [21, 22], brokenEnd = False\<rparr>
   \<and> length [7, 0xA5, 0x0A, 0x15, 0x10, 2, 0, 0x8D, 0xB7, 0, 0, 1, 2,
      0xA5, 0x0C, 0x16, 0x10, 0, 0, 0, 0, 0x8C, 0xB5, 0, 0 :: byte] < 2147483648
   \<and> [7, 0xA5, 0x0A, 0x15, 0x10, 2, 0, 0x8D, 0xB7, 0, 0, 1, 2,
      0xA5, 0x0C, 0x16, 0x10, 0, 0, 0, 0, 0x8C, 0xB5, 0, 0 :: byte] ! nat (11 + 2 + 1) = 12
   \<and> (25 :: int) = 11 + 2 + uint (12 :: byte)
   \<and> (11 :: int) = int (length (takeWhile (\<lambda>b. b \<noteq> SYNC)
        [7, 0xA5, 0x0A, 0x15, 0x10, 2, 0, 0x8D, 0xB7, 0, 0, 1, 2,
         0xA5, 0x0C, 0x16, 0x10, 0, 0, 0, 0, 0x8C, 0xB5, 0, 0])) + uint (10 :: byte)"
proof -
  let ?S = "[7, 0xA5, 0x0A, 0x15, 0x10, 2, 0, 0x8D, 0xB7, 0, 0, 1, 2,
      0xA5, 0x0C, 0x16, 0x10, 0, 0, 0, 0, 0x8C, 0xB5, 0, 0] :: byte list"
  let ?R = "\<lparr>index = [11, 25], length_r = [2, 0], id_r = [21, 22], brokenEnd = False\<rparr>"
  have ev: "do_ldc_ad2cp_in_file ?S 1 2 1 = Inr ?R" by (simp add: scan_eval)
  have len: "length ?S < 2147483648" by simp
  from offsets_linked[OF ev len]
  have "index ?R ! Suc 0
      = index ?R ! 0 + length_r ?R ! 0 + uint (?S ! nat (index ?R ! 0 + length_r ?R ! 0 + 1))"
    and "index ?R ! 0 = int (length (takeWhile (\<lambda>b. b \<noteq> SYNC) ?S))
                        + uint (?S ! (length (takeWhile (\<lambda>b. b \<noteq> SYNC) ?S) + 1))"
    by simp_all
  with ev len show ?thesis by (simp add: SYNC_def)
qed

text \<open>
  Claim C6 as it is stated fails on long streams: \<open>cindex\<close> and the buffers are
  \<open>unsigned int\<close>, and R receives the offsets as 32-bit integers. Below, 2147483637
  zero bytes precede two frames with empty payloads and header size 10. The first
  offset is \<open>2^31 - 1\<close>; the second, \<open>2^31 + 9\<close> in the buffer, reaches R as a negative
  number, neither above the first nor equal to it plus 0 plus 10.
\<close>

theorem offsets_wrap_counterexample:
  "do_ldc_ad2cp_in_file
     (replicate 2147483637 0 @
      [0xA5, 0x0A, 0x15, 0x10, 0, 0, 0x8C, 0xB5, 0, 0,
       0xA5, 0x0A, 0x16, 0x10, 0, 0, 0x8C, 0xB5, 0, 0]) 1 2 1
     = Inr \<lparr>index = [2147483647, - 2147483639], length_r = [0, 0], id_r = [21, 22],
            brokenEnd = False\<rparr>
   \<and> \<not> ((2147483647 :: int) < - 2147483639)
   \<and> (- 2147483639 :: int) \<noteq> 2147483647 + 0 + 10"
proof -
  let ?F = "[0xA5, 0x0A, 0x15, 0x10, 0, 0, 0x8C, 0xB5, 0, 0,
             0xA5, 0x0A, 0x16, 0x10, 0, 0, 0x8C, 0xB5, 0, 0] :: byte list"
  have "SYNC \<notin> set (replicate 2147483637 (0 :: byte))" by (simp add: SYNC_def)
  from locate_sync_skip[OF this, of ?F 0]
  have loc: "locate_sync (replicate 2147483637 0 @ ?F) 0 = Inr (?F, 2147483637)"
    by (simp add: SYNC_def)
  show ?thesis
    by (simp add: do_ldc_ad2cp_in_file_def loc initial_state_def make_result_def
        scan_loop.simps scan_body_def load_dbuf_def cs_def cs_loop.simps SYNC_def
        bytes2_value_def bytes2_short_def Let_def)
qed

subsection \<open>Bytes before the first frame\<close>

lemma shift_body_Inl:
  "shift_rel d a b \<Longrightarrow> scan_body a = Inl e \<Longrightarrow> scan_body b = Inl e"
  by (auto simp: scan_body_def Let_def shift_rel_def split: sum.splits prod.splits if_splits)

lemma shift_body_Break:
  assumes "shift_rel d a b" "scan_body a = Inr (Break a')"
  shows "\<exists>b'. scan_body b = Inr (Break b') \<and> shift_rel d a' b'"
  using assms
  by (auto simp: scan_body_def Let_def shift_rel_def split: sum.splits prod.splits if_splits)

lemma shift_body_Continue:
  assumes "shift_rel d a b" "scan_body a = Inr (Continue a')"
  shows "\<exists>b'. scan_body b = Inr (Continue b') \<and> shift_rel d a' b'"
  using assms
  by (auto simp: scan_body_def Let_def shift_rel_def add.assoc add.commute add.left_commute
      split: sum.splits prod.splits if_splits)


lemma locate_sync_shift:
  "locate_sync inp (c + d) =
     (case locate_sync inp c of Inl e \<Rightarrow> Inl e | Inr (fp0, c0) \<Rightarrow> Inr (fp0, c0 + d))"
proof (induction inp arbitrary: c)
  case Nil
  show ?case by simp
next
  case (Cons x inp)
  show ?case
  proof (cases "x = SYNC")
    case True
    then show ?thesis by simp
  next
    case False
    have "locate_sync (x # inp) (c + d) = locate_sync inp (c + d + 1)"
      using False by simp
    also have "\<dots> = locate_sync inp (c + 1 + d)"
      by (simp add: ac_simps)
    also have "\<dots> = (case locate_sync inp (c + 1) of
        Inl e \<Rightarrow> Inl e | Inr (fp0, c0) \<Rightarrow> Inr (fp0, c0 + d))"
      by (rule Cons.IH)
    also have "locate_sync inp (c + 1) = locate_sync (x # inp) c"
      using False by simp
    finally show ?thesis .
  qed
qed

lemma shift_loop:
  "shift_rel d a b \<Longrightarrow>
     (case scan_loop to_value a of
        Inl e \<Rightarrow> scan_loop to_value b = Inl e
      | Inr a' \<Rightarrow> (\<exists>b'. scan_loop to_value b = Inr b' \<and> shift_rel d a' b'))"
proof (induction to_value a arbitrary: b rule: scan_loop.induct)
  case (1 to_value a)
  from "1.prems" have ch: "chunk b = chunk a" by (simp add: shift_rel_def)
  show ?case
  proof (cases "chunk a < to_value")
    case False
    with ch "1.prems" show ?thesis by (simp add: scan_loop.simps)
  next
    case True
    show ?thesis
    proof (cases "scan_body a")
      case (Inl e)
      with shift_body_Inl[OF "1.prems" Inl] True ch show ?thesis
        by (simp add: scan_loop.simps)
    next
      case (Inr x)
      show ?thesis
      proof (cases x)
        case (Break a')
        with Inr have ba: "scan_body a = Inr (Break a')" by simp
        from shift_body_Break[OF "1.prems" ba] obtain b' where
          "scan_body b = Inr (Break b')" "shift_rel d a' b'" by blast
        with ba True ch show ?thesis by (simp add: scan_loop.simps)
      next
        case (Continue a')
        with Inr have ba: "scan_body a = Inr (Continue a')" by simp
        from shift_body_Continue[OF "1.prems" ba] obtain b' where
          bb: "scan_body b = Inr (Continue b')" and rel: "shift_rel d a' b'" by blast
        have la: "scan_loop to_value a = scan_loop to_value a'"
          using True ba by (simp add: scan_loop.simps)
        have lb: "scan_loop to_value b = scan_loop to_value b'"
          using True ch bb by (simp add: scan_loop.simps)
        show ?thesis unfolding la lb by (rule "1.IH"[OF True Inr Continue rel])
      qed
    qed
  qed
qed

lemma shifted_result:
  assumes rel: "shift_rel (of_nat m) a b"
    and cells: "\<forall>i<chunk a. unat (index_buf a i) \<le> n"
    and small: "m + n < 2147483648"
  shows "make_result b = (make_result a)\<lparr>index := map (\<lambda>x. x + int m) (index (make_result a))\<rparr>"
proof -
  have um: "unat (word_of_nat m :: 32 word) = m"
    using small by (intro unat_of_nat_32) simp
  have ix: "sint (index_buf b i) = sint (index_buf a i) + int m" if "i < chunk a" for i
  proof -
    from cells that have le: "unat (index_buf a i) \<le> n" by simp
    from rel that have eq: "index_buf b i = index_buf a i + of_nat m" by (simp add: shift_rel_def)
    have "unat (index_buf a i + of_nat m) = unat (index_buf a i) + m"
      using le small um by (subst unat_add_32) simp_all
    then have "sint (index_buf a i + of_nat m) = int (unat (index_buf a i) + m)"
      using le small by (subst sint_eq_unat_32) simp_all
    moreover have "sint (index_buf a i) = int (unat (index_buf a i))"
      using le small by (intro sint_eq_unat_32) simp
    ultimately show ?thesis using eq by simp
  qed
  from rel have same: "chunk b = chunk a" "broken_end b = broken_end a"
    "\<forall>i<chunk a. length_buf b i = length_buf a i \<and> id_buf b i = id_buf a i"
    by (simp_all add: shift_rel_def)
  show ?thesis
    using ix same by (simp add: make_result_def comp_def)
qed

text \<open>
  Claim C7, as amended (\<open>p\<close> holds no sync byte, and \<open>p\<close> and \<open>s\<close> together are shorter
  than \<open>2^31\<close> bytes). Scanning \<open>p @ s\<close> ends as scanning \<open>s\<close> does: with the same error,
  or with the same lengths, ids and flag and with every offset larger by the length of
  \<open>p\<close>. When \<open>s\<close> starts with a sync byte, the first offset of the scan of \<open>p @ s\<close> is
  the length of \<open>p\<close> plus the header size of the first frame: it has grown by the
  length of \<open>p\<close>, not by that length plus the header size.
\<close>

theorem prefix_shifts_offsets:
  assumes "SYNC \<notin> set p" and "length p + length s < 2147483648"
  shows "do_ldc_ad2cp_in_file (p @ s) from0 to0 by0 =
      (case do_ldc_ad2cp_in_file s from0 to0 by0 of
         Inl e \<Rightarrow> Inl e
       | Inr r \<Rightarrow> Inr (r\<lparr>index := map (\<lambda>x. x + int (length p)) (index r)\<rparr>))
    \<and> (\<forall>r'. do_ldc_ad2cp_in_file (p @ s) from0 to0 by0 = Inr r' \<and> index r' \<noteq> []
            \<and> s \<noteq> [] \<and> hd s = SYNC \<longrightarrow>
          index r' ! 0 = int (length p) + uint (s ! 1))"
proof -
  let ?to = "nat (sint to0)"
  let ?d = "of_nat (length p) :: 32 word"
  let ?shift = "\<lambda>r. r\<lparr>index := map (\<lambda>x. x + int (length p)) (index r)\<rparr>"
  have small: "length s < 2147483648" using assms(2) by simp
  have main: "do_ldc_ad2cp_in_file (p @ s) from0 to0 by0 =
      (case do_ldc_ad2cp_in_file s from0 to0 by0 of Inl e \<Rightarrow> Inl e | Inr r \<Rightarrow> Inr (?shift r))"
  proof (cases "sint from0 < 0 \<or> sint to0 < 0 \<or> sint by0 < 0")
    case True
    then show ?thesis by (auto simp: do_ldc_ad2cp_in_file_def)
  next
    case False
    have lp: "locate_sync (p @ s) 0 =
        (case locate_sync s 0 of Inl e \<Rightarrow> Inl e | Inr (fp0, c0) \<Rightarrow> Inr (fp0, c0 + ?d))"
      using locate_sync_skip[OF assms(1), of s 0] locate_sync_shift[of s 0 ?d] by simp
    show ?thesis
    proof (cases "locate_sync s 0")
      case (Inl e)
      with lp False show ?thesis by (simp add: do_ldc_ad2cp_in_file_def)
    next
      case (Inr x)
      obtain fp0 c0 where x: "x = (fp0, c0)" by (cases x)
      with Inr have ls: "locate_sync s 0 = Inr (fp0, c0)" by simp
      with lp have lps: "locate_sync (p @ s) 0 = Inr (fp0, c0 + ?d)" by simp
      have rel0: "shift_rel ?d (initial_state fp0 c0) (initial_state fp0 (c0 + ?d))"
        by (simp add: shift_rel_def initial_state_def)
      show ?thesis
      proof (cases "scan_loop ?to (initial_state fp0 c0)")
        case (Inl e)
        with shift_loop[OF rel0, of ?to]
        have "scan_loop ?to (initial_state fp0 (c0 + ?d)) = Inl e" by simp
        with Inl ls lps False show ?thesis by (simp add: do_ldc_ad2cp_in_file_def)
      next
        case (Inr a')
        with shift_loop[OF rel0, of ?to] obtain b' where
          rb: "scan_loop ?to (initial_state fp0 (c0 + ?d)) = Inr b'" and rel: "shift_rel ?d a' b'"
          by auto
        have ra: "do_ldc_ad2cp_in_file s from0 to0 by0 = Inr (make_result a')"
          using Inr ls False by (simp add: do_ldc_ad2cp_in_file_def)
        have rb': "do_ldc_ad2cp_in_file (p @ s) from0 to0 by0 = Inr (make_result b')"
          using rb lps False by (simp add: do_ldc_ad2cp_in_file_def)
        have len: "length s < 4294967296" using small by simp
        from initial_tracks[OF ls len] have "at_cursor s (initial_state fp0 c0)"
          "linked s (initial_state fp0 c0)" by blast+
        from scan_loop_linked[OF Inr len this] have "linked s a'" .
        then have cells: "\<forall>i<chunk a'. unat (index_buf a' i) \<le> length s"
          by (auto simp: linked_def)
        have "make_result b' = ?shift (make_result a')"
          by (rule shifted_result[OF rel cells assms(2)])
        with ra rb' show ?thesis by simp
      qed
    qed
  qed
  have first: "index r' ! 0 = int (length p) + uint (s ! 1)"
    if r': "do_ldc_ad2cp_in_file (p @ s) from0 to0 by0 = Inr r'" and ne: "index r' \<noteq> []"
      and s: "s \<noteq> []" "hd s = SYNC" for r'
  proof -
    from r' main obtain r where r: "do_ldc_ad2cp_in_file s from0 to0 by0 = Inr r"
      and rr: "r' = ?shift r" by (auto split: sum.splits)
    from rr ne have ner: "index r \<noteq> []" by auto
    from s have "takeWhile (\<lambda>b. b \<noteq> SYNC) s = []" by (cases s) auto
    with first_offset[OF r small ner] have "index r ! 0 = uint (s ! 1)" by simp
    moreover from ner have "0 < length (index r)" by simp
    ultimately show ?thesis using rr by (simp add: nth_map)
  qed
  from main first show ?thesis by blast
qed

theorem prefix_shifts_offsets_witness:
  "SYNC \<notin> set [0x07, 0x5A, 0x00 :: byte]
   \<and> do_ldc_ad2cp_in_file
       [0xA5, 0x0A, 0x15, 0x10, 2, 0, 0x8D, 0xB7, 0, 0, 1, 2,
        0xA5, 0x0C, 0x16, 0x10, 0, 0, 0, 0, 0x8C, 0xB5, 0, 0] 1 2 1
     = Inr \<lparr>index = [10, 24], length_r = [2, 0], id_r = [21, 22], brokenEnd = False\<rparr>
   \<and> do_ldc_ad2cp_in_file
       ([0x07, 0x5A, 0x00] @
        [0xA5, 0x0A, 0x15, 0x10, 2, 0, 0x8D, 0xB7, 0, 0, 1, 2,
         0xA5, 0x0C, 0x16, 0x10, 0, 0, 0, 0, 0x8C, 0xB5, 0, 0]) 1 2 1
     = Inr \<lparr>index = [13, 27], length_r = [2, 0], id_r = [21, 22], brokenEnd = False\<rparr>"
proof -
  let ?p = "[0x07, 0x5A, 0x00] :: byte list"
  let ?S = "[0xA5, 0x0A, 0x15, 0x10, 2, 0, 0x8D, 0xB7, 0, 0, 1, 2,
             0xA5, 0x0C, 0x16, 0x10, 0, 0, 0, 0, 0x8C, 0xB5, 0, 0] :: byte list"
  have ns: "SYNC \<notin> set ?p" by (simp add: SYNC_def)
  have small: "length ?p + length ?S < 2147483648" by simp
  have ev: "do_ldc_ad2cp_in_file ?S 1 2 1
     = Inr \<lparr>index = [10, 24], length_r = [2, 0], id_r = [21, 22], brokenEnd = False\<rparr>"
    by (simp add: scan_eval)
  from prefix_shifts_offsets[OF ns small, of 1 2 1]
  have "do_ldc_ad2cp_in_file (?p @ ?S) 1 2 1 =
      (case do_ldc_ad2cp_in_file ?S 1 2 1 of
         Inl e \<Rightarrow> Inl e
       | Inr r \<Rightarrow> Inr (r\<lparr>index := map (\<lambda>x. x + int (length ?p)) (index r)\<rparr>))"
    by blast
  with ev have "do_ldc_ad2cp_in_file (?p @ ?S) 1 2 1
     = Inr \<lparr>index = [13, 27], length_r = [2, 0], id_r = [21, 22], brokenEnd = False\<rparr>"
    by simp
  with ns ev show ?thesis by simp
qed

text \<open>
  Claim C7 as it is stated fails when the bytes before the first frame carry the offset
  past \<open>2^31 - 1\<close>. Alone, the frame below has its payload at offset 10. Behind 2147483638
  zero bytes its offset is \<open>2^31\<close> in the buffer and reaches R as \<open>- 2^31\<close>: that is
  neither the number of bytes put in front plus the header size, nor the old offset plus
  both.
\<close>

theorem prefix_wrap_counterexample:
  "SYNC \<notin> set (replicate 2147483638 (0 :: byte))
   \<and> do_ldc_ad2cp_in_file [0xA5, 0x0A, 0x15, 0x10, 0, 0, 0x8C, 0xB5, 0, 0] 1 1 1
     = Inr \<lparr>index = [10], length_r = [0], id_r = [21], brokenEnd = False\<rparr>
   \<and> do_ldc_ad2cp_in_file
       (replicate 2147483638 0 @ [0xA5, 0x0A, 0x15, 0x10, 0, 0, 0x8C, 0xB5, 0, 0]) 1 1 1
     = Inr \<lparr>index = [- 2147483648], length_r = [0], id_r = [21], brokenEnd = False\<rparr>
   \<and> (- 2147483648 :: int) \<noteq> 2147483638 + 10
   \<and> (- 2147483648 :: int) \<noteq> 10 + (2147483638 + 10)"
proof -
  let ?F = "[0xA5, 0x0A, 0x15, 0x10, 0, 0, 0x8C, 0xB5, 0, 0] :: byte list"
  have ns: "SYNC \<notin> set (replicate 2147483638 (0 :: byte))" by (simp add: SYNC_def)
  from locate_sync_skip[OF this, of ?F 0]
  have loc: "locate_sync (replicate 2147483638 0 @ ?F) 0 = Inr (?F, 2147483638)"
    by (simp add: SYNC_def)
  have a: "do_ldc_ad2cp_in_file ?F 1 1 1
     = Inr \<lparr>index = [10], length_r = [0], id_r = [21], brokenEnd = False\<rparr>"
    by (simp add: scan_eval)
  have b: "do_ldc_ad2cp_in_file (replicate 2147483638 0 @ ?F) 1 1 1
     = Inr \<lparr>index = [- 2147483648], length_r = [0], id_r = [21], brokenEnd = False\<rparr>"
    by (simp add: do_ldc_ad2cp_in_file_def loc initial_state_def make_result_def
        scan_loop.simps scan_body_def load_dbuf_def cs_def cs_loop.simps SYNC_def
        bytes2_value_def bytes2_short_def Let_def)
  from ns a b show ?thesis by simp
qed

end
